theory Spec2Isabelle
  imports Complex_Main
begin

section \<open>Errors raised by the scripts\<close>

text \<open>
  The Python exceptions that the modelled functions can raise. A function that may not
  return at all (a \<^verbatim>\<open>while\<close> loop whose exit depends on its arguments) yields an
  \<open>option\<close>: \<open>None\<close> stands for a call that never returns.
\<close>

datatype error = ValueError | AssertionError | ZeroDivisionError | KeyError int

section \<open>The integer root finder (replicate\_tail.py, int\_nth\_root\_floor)\<close>

text \<open>
  \<^verbatim>\<open>while hi ** k <= n: hi <<= 1\<close>. The exponent is only ever positive here, so
  \<^verbatim>\<open>hi ** k\<close> is the integer power.
\<close>

partial_function (option) root_double :: "int \<Rightarrow> int \<Rightarrow> int \<Rightarrow> int option" where
  "root_double n k hi = (if hi ^ nat k \<le> n then root_double n k (push_bit 1 hi) else Some hi)"

declare root_double.simps [code]

text \<open>
  \<^verbatim>\<open>while hi - lo > 1: mid = (lo + hi) // 2; if mid ** k <= n: lo = mid else: hi = mid\<close>,
  followed by \<^verbatim>\<open>return lo\<close>.
\<close>

function root_bisect :: "int \<Rightarrow> int \<Rightarrow> int \<Rightarrow> int \<Rightarrow> int" where
  "root_bisect n k lo hi =
     (if hi - lo > 1
      then (let mid = (lo + hi) div 2
            in if mid ^ nat k \<le> n then root_bisect n k mid hi else root_bisect n k lo mid)
      else lo)"
  by pat_completeness auto
termination
  by (relation "measure (\<lambda>(n, k, lo, hi). nat (hi - lo))") auto

declare root_bisect.simps [simp del]

definition int_nth_root_floor :: "int \<Rightarrow> int \<Rightarrow> (error + int) option" where
  "int_nth_root_floor n k =
     (if n < 0 \<or> k \<le> 0 then Some (Inl ValueError)
      else if n < 2 then Some (Inr n)
      else (case root_double n k 1 of
              None \<Rightarrow> None
            | Some hi \<Rightarrow> Some (Inr (root_bisect n k 0 hi))))"

section \<open>The totient sieve (replicate\_tail.py, sieve\_phi)\<close>

text \<open>
  \<^verbatim>\<open>range(start, stop, step)\<close> for a positive step, the only kind the scripts use;
  \<^verbatim>\<open>range(a, b + 1)\<close> is the interval \<open>[a..b]\<close>.
\<close>

function py_range :: "int \<Rightarrow> int \<Rightarrow> int \<Rightarrow> int list" where
  "py_range start stop step =
     (if 0 < step \<and> start < stop then start # py_range (start + step) stop step else [])"
  by pat_completeness auto
termination
  by (relation "measure (\<lambda>(start, stop, step). nat (stop - start))") auto

declare py_range.simps [simp del]

text \<open>
  The inner loop \<^verbatim>\<open>for k in range(p, Q + 1, p): phi[k] -= phi[k] // p\<close>. Every index
  it touches lies in \<open>[p, Q]\<close>, inside the table of length \<open>Q + 1\<close>.
\<close>

definition sieve_inner :: "int \<Rightarrow> int \<Rightarrow> int list \<Rightarrow> int list" where
  "sieve_inner Q p phi =
     foldl (\<lambda>phi k. phi[nat k := phi ! nat k - phi ! nat k div p]) phi (py_range p (Q + 1) p)"

text \<open>The body of the outer loop: \<^verbatim>\<open>if phi[p] == p: ...\<close>.\<close>

definition sieve_step :: "int \<Rightarrow> int list \<Rightarrow> int \<Rightarrow> int list" where
  "sieve_step Q phi p = (if phi ! nat p = p then sieve_inner Q p phi else phi)"

text \<open>\<^verbatim>\<open>for p in range(2, Q + 1): ...\<close>\<close>

definition sieve_loop :: "int \<Rightarrow> int list \<Rightarrow> int list" where
  "sieve_loop Q phi = foldl (sieve_step Q) phi [2..Q]"

definition sieve_phi :: "int \<Rightarrow> error + int list" where
  "sieve_phi Q = (if Q < 0 then Inl ValueError else Inr (sieve_loop Q [0..Q]))"

section \<open>The trial-division totient (harmonic\_sum\_phi.py, phi)\<close>

text \<open>
  The same function is repeated, letter for letter, in per\_q\_envelope.py and
  major\_arc\_envelope.py. The inner loop \<^verbatim>\<open>while x%p==0: x//=p\<close> comes first.
\<close>

partial_function (option) phi_strip :: "int \<Rightarrow> int \<Rightarrow> int option" where
  "phi_strip x p = (if x mod p = 0 then phi_strip (x div p) p else Some x)"

text \<open>
  The outer loop \<^verbatim>\<open>while p*p<=x: ...; p+=1 if p==2 else 2\<close> together with what
  follows it, \<^verbatim>\<open>if x>1: r-=r//x\<close> and \<^verbatim>\<open>return r\<close>.
\<close>

partial_function (option) phi_loop :: "int \<Rightarrow> int \<Rightarrow> int \<Rightarrow> int option" where
  "phi_loop x r p =
     (if p * p \<le> x
      then (if x mod p = 0
            then Option.bind (phi_strip x p)
                   (\<lambda>x'. phi_loop x' (r - r div p) (p + (if p = 2 then 1 else 2)))
            else phi_loop x r (p + (if p = 2 then 1 else 2)))
      else Some (if x > 1 then r - r div x else r))"

declare phi_strip.simps [code] phi_loop.simps [code]

text \<open>\<^verbatim>\<open>x=n; r=n; p=2\<close>\<close>

definition phi :: "int \<Rightarrow> int option" where
  "phi n = phi_loop n n 2"

section \<open>The harmonic sums\<close>

text \<open>
  The float-mode loop of harmonic\_sum\_phi.py: \<^verbatim>\<open>for q in range(2,Q+1): ph=phi(q);
  if ph: s+=1.0/(q*ph)\<close>. Float arithmetic is left open: \<open>fadd\<close> is the float
  addition and \<open>frecip d\<close> the float \<^verbatim>\<open>1.0/d\<close> for an integer \<open>d \<noteq> 0\<close>; at \<open>d = 0\<close>
  Python raises ZeroDivisionError.
\<close>

fun harmonic_sum_phi_loop ::
  "('f \<Rightarrow> 'f \<Rightarrow> 'f) \<Rightarrow> (int \<Rightarrow> 'f) \<Rightarrow> int list \<Rightarrow> 'f \<Rightarrow> (error + 'f) option" where
  "harmonic_sum_phi_loop fadd frecip [] s = Some (Inr s)"
| "harmonic_sum_phi_loop fadd frecip (q # qs) s =
     (case phi q of
        None \<Rightarrow> None
      | Some ph \<Rightarrow>
          if ph \<noteq> 0
          then (if q * ph = 0 then Some (Inl ZeroDivisionError)
                else harmonic_sum_phi_loop fadd frecip qs (fadd s (frecip (q * ph))))
          else harmonic_sum_phi_loop fadd frecip qs s)"

definition harmonic_sum_phi ::
  "('f \<Rightarrow> 'f \<Rightarrow> 'f) \<Rightarrow> (int \<Rightarrow> 'f) \<Rightarrow> 'f \<Rightarrow> int \<Rightarrow> (error + 'f) option" where
  "harmonic_sum_phi fadd frecip fzero Q = harmonic_sum_phi_loop fadd frecip [2..Q] fzero"

text \<open>
  The float loop of sieve\_phi\_sum (replicate\_tail.py):
  \<^verbatim>\<open>for q in range(2, Q + 1): ph = phi[q]; S += 1.0 / (q * ph)\<close>, on a table built
  by the same sieve loops as in \<open>sieve_phi\<close>.
\<close>

fun sieve_sum_loop ::
  "('f \<Rightarrow> 'f \<Rightarrow> 'f) \<Rightarrow> (int \<Rightarrow> 'f) \<Rightarrow> int list \<Rightarrow> int list \<Rightarrow> 'f \<Rightarrow> error + 'f" where
  "sieve_sum_loop fadd frecip tab [] S = Inr S"
| "sieve_sum_loop fadd frecip tab (q # qs) S =
     (let ph = tab ! nat q
      in if q * ph = 0 then Inl ZeroDivisionError
         else sieve_sum_loop fadd frecip tab qs (fadd S (frecip (q * ph))))"

definition sieve_phi_sum ::
  "('f \<Rightarrow> 'f \<Rightarrow> 'f) \<Rightarrow> (int \<Rightarrow> 'f) \<Rightarrow> 'f \<Rightarrow> int \<Rightarrow> error + (int list \<times> 'f)" where
  "sieve_phi_sum fadd frecip fzero Q =
     (if Q < 1 then Inr ([0, 1], fzero)
      else (let tab = sieve_loop Q [0..Q]
            in case sieve_sum_loop fadd frecip tab [2..Q] fzero of
                 Inl e \<Rightarrow> Inl e
               | Inr S \<Rightarrow> Inr (tab, S)))"

text \<open>
  The exact mode, harmonic\_sum\_fraction: a \<^verbatim>\<open>Fraction\<close> is a rational number, and
  \<^verbatim>\<open>Fraction(1, 0)\<close> raises ZeroDivisionError.
\<close>

fun fraction_sum_loop :: "int list \<Rightarrow> int list \<Rightarrow> rat \<Rightarrow> error + rat" where
  "fraction_sum_loop tab [] S = Inr S"
| "fraction_sum_loop tab (q # qs) S =
     (let ph = tab ! nat q
      in if q * ph = 0 then Inl ZeroDivisionError
         else fraction_sum_loop tab qs (S + Fract 1 (q * ph)))"

definition harmonic_sum_fraction :: "int \<Rightarrow> error + rat" where
  "harmonic_sum_fraction Q =
     (if Q < 0 then Inl ValueError
      else (case sieve_phi Q of
              Inl e \<Rightarrow> Inl e
            | Inr tab \<Rightarrow> fraction_sum_loop tab [2..Q] 0))"

subsection \<open>Decimal arithmetic\<close>

text \<open>
  Python's \<^verbatim>\<open>decimal\<close> module, as far as the scripts use it. A \<^verbatim>\<open>Decimal\<close> is modelled
  by the rational number it denotes; the scripts only add, multiply, divide and compare
  them. \<^verbatim>\<open>Decimal(n)\<close> of an integer is exact. The result of an operation is the exact
  result rounded to the precision of the current context, that many significant digits,
  with the context's rounding, which the scripts leave at the default ROUND\_HALF\_EVEN.
  The exponent limits of the context are far from any value that arises here and are
  left out.
\<close>

fun ndigits :: "nat \<Rightarrow> nat" where
  "ndigits n = (if n < 10 then 1 else Suc (ndigits (n div 10)))"

declare ndigits.simps [simp del]

text \<open>The exponent of the leading digit of \<open>x > 0\<close>: the \<open>e\<close> with \<open>10^e \<le> x < 10^(e+1)\<close>.\<close>

definition dec_adjusted :: "rat \<Rightarrow> int" where
  "dec_adjusted x =
     (let (a, b) = quotient_of x; d = int (ndigits (nat a)) - int (ndigits (nat b))
      in if 10 powi d \<le> x then d else d - 1)"

definition round_half_even :: "rat \<Rightarrow> int" where
  "round_half_even x =
     (let f = \<lfloor>x\<rfloor>; r = x - of_int f
      in if r < 1 / 2 then f else if 1 / 2 < r then f + 1 else if even f then f else f + 1)"

definition dec_round :: "int \<Rightarrow> rat \<Rightarrow> rat" where
  "dec_round prec x =
     (if x = 0 then 0
      else let e = dec_adjusted \<bar>x\<bar> - prec + 1
           in sgn x * of_int (round_half_even (\<bar>x\<bar> / 10 powi e)) * 10 powi e)"

text \<open>
  The decimal context: the scripts read and write its precision only. Setting a
  precision outside \<open>[1, MAX_PREC]\<close> raises ValueError.
\<close>

record dec_context =
  ctx_prec :: int

definition MAX_PREC :: int where
  "MAX_PREC = 999999999999999999"

text \<open>
  The decimal mode, harmonic\_sum\_decimal. \<^verbatim>\<open>getcontext().prec = prec\<close> writes the
  current context, and every operation after it reads the precision from there.
  A division by a zero \<^verbatim>\<open>Decimal\<close> raises (\<^verbatim>\<open>DivisionByZero\<close> is a ZeroDivisionError).
\<close>

fun decimal_sum_loop :: "dec_context \<Rightarrow> int list \<Rightarrow> int list \<Rightarrow> rat \<Rightarrow> error + rat" where
  "decimal_sum_loop c tab [] S = Inr S"
| "decimal_sum_loop c tab (q # qs) S =
     (let ph = tab ! nat q; d = dec_round (ctx_prec c) (of_int q * of_int ph)
      in if d = 0 then Inl ZeroDivisionError
         else decimal_sum_loop c tab qs
                (dec_round (ctx_prec c) (S + dec_round (ctx_prec c) (1 / d))))"

definition harmonic_sum_decimal ::
  "int \<Rightarrow> int \<Rightarrow> dec_context \<Rightarrow> (error + rat) \<times> dec_context" where
  "harmonic_sum_decimal Q prec c =
     (if Q < 0 then (Inl ValueError, c)
      else if prec < 1 \<or> MAX_PREC < prec then (Inl ValueError, c)
      else (let c' = c\<lparr>ctx_prec := prec\<rparr>
            in case sieve_phi Q of
                 Inl e \<Rightarrow> (Inl e, c')
               | Inr tab \<Rightarrow> (decimal_sum_loop c' tab [2..Q] 0, c')))"

section \<open>The tail margins (replicate\_tail.py, compute\_tail\_margins)\<close>

text \<open>
  A Python float is modelled by the real number it denotes and a float operation by the
  exact operation on reals: rounding, overflow and NaN are outside the model. What is
  kept is that a float division by zero raises ZeroDivisionError.
\<close>

definition fdiv :: "real \<Rightarrow> real \<Rightarrow> error + real" where
  "fdiv a b = (if b = 0 then Inl ZeroDivisionError else Inr (a / b))"

text \<open>A raised exception ends the function: the rest runs on a returned value only.\<close>

definition err_bind :: "error + 'a \<Rightarrow> ('a \<Rightarrow> error + 'b) \<Rightarrow> error + 'b" where
  "err_bind r f = (case r of Inl e \<Rightarrow> Inl e | Inr v \<Rightarrow> f v)"

definition E_trivial :: "real \<Rightarrow> real \<Rightarrow> real" where
  "E_trivial N L = N * L + N"

definition E_uniform :: "real \<Rightarrow> real \<Rightarrow> error + real" where
  "E_uniform N L = fdiv N (160 * L)"

text \<open>The dictionary that compute\_tail\_margins returns, key by key.\<close>

record tail_margins =
  const_K :: real
  const_S_floor :: real
  const_C_W :: real
  const_method :: string
  const_prec :: int
  tm_N :: real
  tm_logN :: real
  tm_Q :: int
  tm_R :: real
  tm_sum_q :: real
  EMA_trivial :: real
  EMA_uniform :: real
  tm_share :: real
  ratio_trivial :: real
  ratio_uniform :: real

text \<open>
  The branch \<^verbatim>\<open>method == "fraction"\<close>: three exact sums, the monotonicity assertion,
  and \<^verbatim>\<open>float(S_Q)\<close>.
\<close>

definition fraction_checked :: "int \<Rightarrow> error + real" where
  "fraction_checked Q =
     err_bind (if Q > 1 then harmonic_sum_fraction (Q - 1) else Inr 0) (\<lambda>S_Qm1.
     err_bind (harmonic_sum_fraction Q) (\<lambda>S_Q.
     err_bind (harmonic_sum_fraction (Q + 1)) (\<lambda>S_Qp1.
       if \<not> (S_Qm1 < S_Q \<and> S_Q < S_Qp1) then Inl AssertionError
       else Inr (real_of_rat S_Q))))"

text \<open>
  The other branch. \<^verbatim>\<open>with localcontext() as ctx\<close> makes a copy of the current context
  the current one for the block and puts the old one back when the block is left, by
  a return or by an exception; \<^verbatim>\<open>ctx.prec = prec\<close> writes the copy. So the three calls
  run on the copy, here threaded through them, and the caller's context is not among
  the results.
\<close>

definition decimal_checked :: "int \<Rightarrow> int \<Rightarrow> dec_context \<Rightarrow> error + real" where
  "decimal_checked Q prec c =
     (if prec < 1 \<or> MAX_PREC < prec then Inl ValueError
      else (let ctx = c\<lparr>ctx_prec := prec\<rparr>;
                (r1, ctx1) = (if Q > 1 then harmonic_sum_decimal (Q - 1) prec ctx
                              else (Inr 0, ctx))
            in err_bind r1 (\<lambda>S_Qm1.
                 let (r2, ctx2) = harmonic_sum_decimal Q prec ctx1
                 in err_bind r2 (\<lambda>S_Q.
                      let (r3, ctx3) = harmonic_sum_decimal (Q + 1) prec ctx2
                      in err_bind r3 (\<lambda>S_Qp1.
                           if \<not> (S_Qm1 < S_Q \<and> S_Q < S_Qp1) then Inl AssertionError
                           else Inr (real_of_rat S_Q))))))"

text \<open>The float part, from \<^verbatim>\<open>N_float = float(N_int)\<close> to the returned dictionary.\<close>

definition tail_margins_floats ::
  "int \<Rightarrow> real \<Rightarrow> real \<Rightarrow> real \<Rightarrow> string \<Rightarrow> int \<Rightarrow> int \<Rightarrow> real \<Rightarrow> error + tail_margins" where
  "tail_margins_floats N_int K S_floor C_W method prec Q S_harm =
     (let N_float = real_of_int N_int;
          L = ln N_float;
          R = N_float powr (6 / 10);
          E_t = E_trivial N_float L
      in err_bind (E_uniform N_float L) (\<lambda>E_u.
         err_bind (fdiv C_W R) (\<lambda>cr.
           let EMA_t = cr * E_t * S_harm;
               EMA_u = cr * E_u * S_harm
           in err_bind (fdiv S_floor (8 * K)) (\<lambda>sk.
              err_bind (fdiv (sk * N_float) (L ^ 2)) (\<lambda>sh.
              err_bind (fdiv EMA_t sh) (\<lambda>rt.
              err_bind (fdiv EMA_u sh) (\<lambda>ru.
                Inr \<lparr>const_K = K, const_S_floor = S_floor, const_C_W = C_W,
                     const_method = method, const_prec = prec,
                     tm_N = N_float, tm_logN = L, tm_Q = Q, tm_R = R, tm_sum_q = S_harm,
                     EMA_trivial = EMA_t, EMA_uniform = EMA_u, tm_share = sh,
                     ratio_trivial = rt, ratio_uniform = ru\<rparr>)))))))"

text \<open>
  The whole function, for an integer \<open>N_int\<close>. The second component is the decimal
  context the caller finds afterwards.
\<close>

definition compute_tail_margins ::
  "int \<Rightarrow> real \<Rightarrow> real \<Rightarrow> real \<Rightarrow> string \<Rightarrow> int \<Rightarrow> dec_context
   \<Rightarrow> (error + tail_margins) option \<times> dec_context" where
  "compute_tail_margins N_int K S_floor C_W method prec c =
     (if N_int \<le> 0 then (Some (Inl ValueError), c)
      else (case int_nth_root_floor N_int 5 of
              None \<Rightarrow> (None, c)
            | Some (Inl e) \<Rightarrow> (Some (Inl e), c)
            | Some (Inr Q) \<Rightarrow>
                (Some (err_bind
                         (if method = ''fraction'' then fraction_checked Q
                          else decimal_checked Q prec c)
                         (tail_margins_floats N_int K S_floor C_W method prec Q)), c)))"

section \<open>The diagnostics and the entry point (replicate\_tail.py, strict\_diagnostics, main)\<close>









section \<open>The per-q envelope (per\_q\_envelope.py)\<close>







section \<open>The reference totient\<close>

text \<open>
  Euler's totient as the glossary has it: the number of integers in \<open>[1, n]\<close> that are
  coprime to \<open>n\<close>.
\<close>

definition totient_ref :: "nat \<Rightarrow> nat" where
  "totient_ref n = length (filter (\<lambda>k. coprime k n) [1..<Suc n])"

text \<open>
  The terms of \<open>S(Q)\<close>: the pairs \<open>(q, \<phi>(q))\<close> for \<open>q\<close> from 2 to \<open>Q\<close>, in this order,
  and the sum of such a list of terms, where \<open>step\<close> adds the term of one pair to the
  accumulator in the arithmetic at hand, or raises.
\<close>

definition harmonic_terms :: "int \<Rightarrow> (int \<times> int) list" where
  "harmonic_terms Q = map (\<lambda>q. (q, int (totient_ref (nat q)))) [2..Q]"

fun sum_terms :: "('a \<Rightarrow> int \<Rightarrow> int \<Rightarrow> error + 'a) \<Rightarrow> (int \<times> int) list \<Rightarrow> 'a \<Rightarrow> error + 'a" where
  "sum_terms step [] S = Inr S"
| "sum_terms step ((q, ph) # ts) S =
     (case step S q ph of Inl e \<Rightarrow> Inl e | Inr S' \<Rightarrow> sum_terms step ts S')"

definition decimal_term :: "int \<Rightarrow> rat \<Rightarrow> int \<Rightarrow> int \<Rightarrow> error + rat" where
  "decimal_term prec S q ph =
     (let d = dec_round prec (of_int q * of_int ph)
      in if d = 0 then Inl ZeroDivisionError
         else Inr (dec_round prec (S + dec_round prec (1 / d))))"

section \<open>Notions used in the proofs\<close>

text \<open>Primality of a natural number, by divisors.\<close>

definition is_prime :: "nat \<Rightarrow> bool" where
  "is_prime p \<longleftrightarrow> 1 < p \<and> (\<forall>d. d dvd p \<longrightarrow> d = 1 \<or> d = p)"

text \<open>
  The numbers in \<open>[1, N]\<close> that no member of \<open>D\<close> divides: what is left of
  \<open>[1, N]\<close> once the multiples of every \<open>q \<in> D\<close> are struck out.
\<close>

definition survivors :: "nat set \<Rightarrow> nat \<Rightarrow> nat set" where
  "survivors D N = {k. 1 \<le> k \<and> k \<le> N \<and> (\<forall>q\<in>D. \<not> q dvd k)}"

text \<open>The prime divisors of \<open>n\<close> that are at most \<open>p\<close>.\<close>

definition prime_divs_upto :: "nat \<Rightarrow> nat \<Rightarrow> nat set" where
  "prime_divs_upto p n = {q. is_prime q \<and> q \<le> p \<and> q dvd n}"

text \<open>
  The state of the sieve after the outer loop has dealt with every \<open>q \<le> p\<close>: entry
  \<open>n\<close> counts the numbers in \<open>[1, n]\<close> that survive striking out the multiples of the
  prime divisors of \<open>n\<close> up to \<open>p\<close>.
\<close>

definition sieve_inv :: "int \<Rightarrow> nat \<Rightarrow> int list \<Rightarrow> bool" where
  "sieve_inv Q p A \<longleftrightarrow>
     length A = nat Q + 1
     \<and> (\<forall>n\<le>nat Q. A ! n = int (card (survivors (prime_divs_upto p n) n)))"

(* DEFS-END *)

section \<open>Correctness of the integer root finder\<close>

text \<open>The doubling loop returns: below the bound \<open>hi\<close> itself is at most \<open>n\<close>, so the
  distance to \<open>n + 1\<close> shrinks with every doubling.\<close>

lemma root_double_total:
  assumes "1 \<le> k" "1 \<le> hi"
  shows "\<exists>h. root_double n k hi = Some h \<and> hi \<le> h \<and> n < h ^ nat k"
  using assms
proof (induction "nat (n + 1 - hi)" arbitrary: hi rule: less_induct)
  case less
  show ?case
  proof (cases "hi ^ nat k \<le> n")
    case True
    have "hi ^ 1 \<le> hi ^ nat k"
      using less.prems by (intro power_increasing) auto
    hence hn: "hi \<le> n" using True by simp
    have "nat (n + 1 - push_bit 1 hi) < nat (n + 1 - hi)"
      using hn less.prems by (simp add: push_bit_eq_mult)
    from less.hyps[OF this less.prems(1)] less.prems
    obtain h where "root_double n k (push_bit 1 hi) = Some h" "push_bit 1 hi \<le> h" "n < h ^ nat k"
      by (auto simp: push_bit_eq_mult)
    thus ?thesis using True less.prems
      by (subst root_double.simps) (auto simp: push_bit_eq_mult)
  next
    case False
    thus ?thesis by (subst root_double.simps) auto
  qed
qed

text \<open>The bisection keeps \<open>lo ^ k \<le> n < hi ^ k\<close> and stops with \<open>hi = lo + 1\<close>.\<close>

lemma root_bisect_correct:
  "0 \<le> lo \<Longrightarrow> lo < hi \<Longrightarrow> lo ^ nat k \<le> n \<Longrightarrow> n < hi ^ nat k \<Longrightarrow>
   lo \<le> root_bisect n k lo hi \<and> root_bisect n k lo hi ^ nat k \<le> n \<and>
   n < (root_bisect n k lo hi + 1) ^ nat k"
proof (induction n k lo hi rule: root_bisect.induct)
  case (1 n k lo hi)
  show ?case
  proof (cases "hi - lo > 1")
    case False
    hence "hi = lo + 1" using "1.prems" by simp
    thus ?thesis using "1.prems" by (subst (1 2 3) root_bisect.simps) simp
  next
    case True
    define mid where "mid = (lo + hi) div 2"
    have m: "lo < mid" "mid < hi" using True by (auto simp: mid_def)
    show ?thesis
    proof (cases "mid ^ nat k \<le> n")
      case le: True
      from "1.IH"(1)[OF True mid_def le] m "1.prems" le
      have "mid \<le> root_bisect n k mid hi \<and> root_bisect n k mid hi ^ nat k \<le> n \<and>
        n < (root_bisect n k mid hi + 1) ^ nat k" by simp
      moreover have "root_bisect n k lo hi = root_bisect n k mid hi"
        using True le by (subst root_bisect.simps) (simp add: mid_def Let_def)
      ultimately show ?thesis using m by simp
    next
      case gt: False
      from "1.IH"(2)[OF True mid_def gt] m "1.prems" gt
      have "lo \<le> root_bisect n k lo mid \<and> root_bisect n k lo mid ^ nat k \<le> n \<and>
        n < (root_bisect n k lo mid + 1) ^ nat k" by simp
      moreover have "root_bisect n k lo hi = root_bisect n k lo mid"
        using True gt by (subst root_bisect.simps) (simp add: mid_def Let_def)
      ultimately show ?thesis by simp
    qed
  qed
qed

lemma floor_root_unique:
  fixes r r' :: int
  assumes "0 \<le> r" "0 \<le> r'" "r ^ k \<le> n" "n < (r + 1) ^ k" "r' ^ k \<le> n" "n < (r' + 1) ^ k"
  shows "r = r'"
proof (rule ccontr)
  assume "r \<noteq> r'"
  then consider "r + 1 \<le> r'" | "r' + 1 \<le> r" by linarith
  thus False
  proof cases
    case 1
    hence "(r + 1) ^ k \<le> r' ^ k" using assms by (intro power_mono) auto
    thus False using assms by linarith
  next
    case 2
    hence "(r' + 1) ^ k \<le> r ^ k" using assms by (intro power_mono) auto
    thus False using assms by linarith
  qed
qed

lemma int_nth_root_floor_returns:
  assumes "0 \<le> n" "1 \<le> k"
  shows "\<exists>r. int_nth_root_floor n k = Some (Inr r) \<and> 0 \<le> r \<and> r ^ nat k \<le> n \<and> n < (r + 1) ^ nat k"
proof (cases "n < 2")
  case True
  hence "n = 0 \<or> n = 1" using assms by auto
  thus ?thesis using assms by (auto simp: int_nth_root_floor_def power_0_left)
next
  case False
  from root_double_total[OF assms(2), of 1 n]
  obtain h where h: "root_double n k 1 = Some h" "1 \<le> h" "n < h ^ nat k" by auto
  have "0 \<le> root_bisect n k 0 h \<and> root_bisect n k 0 h ^ nat k \<le> n \<and>
        n < (root_bisect n k 0 h + 1) ^ nat k"
    using h assms by (intro root_bisect_correct) (auto simp: power_0_left)
  thus ?thesis using False assms h by (simp add: int_nth_root_floor_def)
qed

text \<open>
  Claim C2. For every integer \<open>n \<ge> 0\<close> and every integer \<open>k \<ge> 1\<close>, the call
  \<open>int_nth_root_floor n k\<close> returns (it neither raises nor loops), and what it returns is
  the unique integer \<open>r \<ge> 0\<close> with \<open>r ^ k \<le> n < (r + 1) ^ k\<close>. In particular it returns
  0 at \<open>n = 0\<close> and 1 at \<open>n = 1\<close>, whatever \<open>k \<ge> 1\<close> is.
\<close>

theorem int_nth_root_floor_spec:
  assumes "0 \<le> n" "1 \<le> k"
  shows "(\<exists>r. int_nth_root_floor n k = Some (Inr r) \<and> 0 \<le> r
            \<and> r ^ nat k \<le> n \<and> n < (r + 1) ^ nat k
            \<and> (\<forall>r'. 0 \<le> r' \<and> r' ^ nat k \<le> n \<and> n < (r' + 1) ^ nat k \<longrightarrow> r' = r))
         \<and> int_nth_root_floor 0 k = Some (Inr 0) \<and> int_nth_root_floor 1 k = Some (Inr 1)"
proof -
  have b: "int_nth_root_floor 0 k = Some (Inr 0)" "int_nth_root_floor 1 k = Some (Inr 1)"
    using assms by (simp_all add: int_nth_root_floor_def)
  from int_nth_root_floor_returns[OF assms]
  obtain r where r: "int_nth_root_floor n k = Some (Inr r)" "0 \<le> r" "r ^ nat k \<le> n"
    "n < (r + 1) ^ nat k" by blast
  have "\<forall>r'. 0 \<le> r' \<and> r' ^ nat k \<le> n \<and> n < (r' + 1) ^ nat k \<longrightarrow> r' = r"
    using floor_root_unique[of _ r "nat k" n] r by blast
  thus ?thesis using r b by blast
qed

text \<open>The theorem at \<open>n = 4 \<times> 10^18\<close>, \<open>k = 5\<close>: the fifth root the tests expect, 5253.\<close>

theorem int_nth_root_floor_spec_witness:
  "(0::int) \<le> 4000000000000000000 \<and> (1::int) \<le> 5
   \<and> int_nth_root_floor 4000000000000000000 5 = Some (Inr 5253)"
proof -
  have h: "(0::int) \<le> 4000000000000000000" "(1::int) \<le> 5" by simp_all
  from int_nth_root_floor_spec[OF h]
  obtain r where r: "int_nth_root_floor 4000000000000000000 5 = Some (Inr r)"
    and u: "\<forall>r'. 0 \<le> r' \<and> r' ^ nat 5 \<le> 4000000000000000000
              \<and> 4000000000000000000 < (r' + 1) ^ nat 5 \<longrightarrow> r' = r"
    by blast
  have "(0::int) \<le> 5253 \<and> (5253::int) ^ nat 5 \<le> 4000000000000000000
        \<and> (4000000000000000000::int) < (5253 + 1) ^ nat 5"
    by simp
  with u have "5253 = r" by blast
  with r h show ?thesis by simp
qed

section \<open>Invalid arguments\<close>

text \<open>
  Claim C6. \<open>int_nth_root_floor n k\<close> raises ValueError exactly when \<open>n < 0\<close> or
  \<open>k \<le> 0\<close>, and \<open>sieve_phi Q\<close> raises ValueError exactly when \<open>Q < 0\<close>. The check is
  the first thing either function does, so the error is the whole outcome of the call
  (no loop is entered), and neither function raises any other error.
\<close>

theorem invalid_argument_errors:
  "(int_nth_root_floor n k = Some (Inl ValueError) \<longleftrightarrow> n < 0 \<or> k \<le> 0)
   \<and> (\<forall>e. int_nth_root_floor n k = Some (Inl e) \<longrightarrow> e = ValueError \<and> (n < 0 \<or> k \<le> 0))
   \<and> (sieve_phi Q = Inl ValueError \<longleftrightarrow> Q < 0)
   \<and> (\<forall>e. sieve_phi Q = Inl e \<longrightarrow> e = ValueError \<and> Q < 0)"
proof -
  have a: "int_nth_root_floor n k = Some (Inl ValueError)" if "n < 0 \<or> k \<le> 0"
    using that by (simp add: int_nth_root_floor_def)
  have b: "e = ValueError \<and> (n < 0 \<or> k \<le> 0)" if "int_nth_root_floor n k = Some (Inl e)" for e
  proof (cases "n < 0 \<or> k \<le> 0")
    case True
    thus ?thesis using that by (simp add: int_nth_root_floor_def)
  next
    case False
    hence "0 \<le> n" "1 \<le> k" by auto
    from int_nth_root_floor_returns[OF this] that show ?thesis by auto
  qed
  have c: "sieve_phi Q = Inl ValueError \<longleftrightarrow> Q < 0"
    by (simp add: sieve_phi_def)
  have d: "e = ValueError \<and> Q < 0" if "sieve_phi Q = Inl e" for e
    using that by (simp add: sieve_phi_def split: if_splits)
  from a b c d show ?thesis by blast
qed

text \<open>The theorem at \<open>n = -1\<close>, at \<open>k = 0\<close>, at \<open>Q = -1\<close> and at \<open>Q = 0\<close>.\<close>

theorem invalid_argument_errors_witness:
  "int_nth_root_floor (- 1) 3 = Some (Inl ValueError) \<and> int_nth_root_floor 8 0 = Some (Inl ValueError)
   \<and> sieve_phi (- 1) = Inl ValueError \<and> sieve_phi 0 \<noteq> Inl ValueError"
  using invalid_argument_errors[of "- 1" 3 "- 1"] invalid_argument_errors[of 8 0 0]
  by simp

section \<open>Counting by striking out multiples\<close>

text \<open>
  The facts about \<open>survivors\<close> that the totient proofs rest on: the count over a whole
  number of periods, the multiples of a further number among the survivors, and the
  step from \<open>D\<close> to \<open>insert p D\<close>, which is the update \<open>r - r div p\<close> of both scripts.
\<close>

lemma finite_survivors [simp]: "finite (survivors D N)"
proof -
  have "survivors D N \<subseteq> {..N}" by (auto simp: survivors_def)
  thus ?thesis by (rule finite_subset) simp
qed

lemma survivors_empty: "card (survivors {} N) = N"
proof -
  have "survivors {} N = {1..N}" by (auto simp: survivors_def)
  thus ?thesis by simp
qed

lemma survivors_zero [simp]: "survivors D 0 = {}"
  by (auto simp: survivors_def)

lemma survivors_block:
  assumes "\<forall>q\<in>D. q dvd m"
  shows "survivors D (m * Suc t) = survivors D (m * t) \<union> (\<lambda>k. k + m * t) ` survivors D m"
proof (intro set_eqI iffI)
  fix k assume k: "k \<in> survivors D (m * Suc t)"
  show "k \<in> survivors D (m * t) \<union> (\<lambda>k. k + m * t) ` survivors D m"
  proof (cases "k \<le> m * t")
    case True
    thus ?thesis using k by (auto simp: survivors_def)
  next
    case False
    define j where "j = k - m * t"
    have kj: "k = j + m * t" using False by (simp add: j_def)
    have "1 \<le> j" "j \<le> m" using False k by (auto simp: j_def survivors_def)
    moreover have "\<not> q dvd j" if "q \<in> D" for q
    proof
      assume "q dvd j"
      moreover have "q dvd m * t" using assms that by simp
      ultimately have "q dvd k" unfolding kj by (rule dvd_add)
      thus False using k that by (simp add: survivors_def)
    qed
    ultimately have "j \<in> survivors D m" by (simp add: survivors_def)
    thus ?thesis using kj by blast
  qed
next
  fix k assume "k \<in> survivors D (m * t) \<union> (\<lambda>k. k + m * t) ` survivors D m"
  thus "k \<in> survivors D (m * Suc t)"
  proof
    assume "k \<in> survivors D (m * t)"
    thus ?thesis by (auto simp: survivors_def)
  next
    assume "k \<in> (\<lambda>k. k + m * t) ` survivors D m"
    then obtain j where j: "j \<in> survivors D m" and kj: "k = j + m * t" by blast
    have "\<not> q dvd k" if "q \<in> D" for q
    proof
      assume "q dvd k"
      moreover have "q dvd m * t" using assms that by simp
      ultimately have "q dvd j" unfolding kj using dvd_add_left_iff by blast
      thus False using j that by (simp add: survivors_def)
    qed
    thus ?thesis using j kj by (auto simp: survivors_def)
  qed
qed

lemma card_survivors_mult:
  assumes "\<forall>q\<in>D. q dvd m"
  shows "card (survivors D (m * t)) = t * card (survivors D m)"
proof (induction t)
  case 0
  show ?case by simp
next
  case (Suc t)
  have disj: "survivors D (m * t) \<inter> (\<lambda>k. k + m * t) ` survivors D m = {}"
    by (auto simp: survivors_def)
  have inj: "inj_on (\<lambda>k. k + m * t) (survivors D m)"
    by (rule inj_onI) simp
  have "card (survivors D (m * Suc t))
        = card (survivors D (m * t)) + card ((\<lambda>k. k + m * t) ` survivors D m)"
    unfolding survivors_block[OF assms] by (rule card_Un_disjoint) (simp_all add: disj)
  also have "card ((\<lambda>k. k + m * t) ` survivors D m) = card (survivors D m)"
    by (rule card_image[OF inj])
  finally show ?case using Suc.IH by simp
qed

lemma survivors_multiples:
  assumes "0 < p" "\<forall>q\<in>D. coprime q p"
  shows "{k \<in> survivors D (p * m). p dvd k} = (\<lambda>j. p * j) ` survivors D m"
proof (intro set_eqI iffI)
  fix k assume "k \<in> {k \<in> survivors D (p * m). p dvd k}"
  then obtain j where k: "k \<in> survivors D (p * m)" and kj: "k = p * j" by (auto elim: dvdE)
  have "1 \<le> j" using k kj by (cases "j = 0") (auto simp: survivors_def)
  moreover have "j \<le> m" using k kj assms(1) by (simp add: survivors_def)
  moreover have "\<not> q dvd j" if "q \<in> D" for q
    using k kj that by (auto simp: survivors_def)
  ultimately have "j \<in> survivors D m" by (simp add: survivors_def)
  thus "k \<in> (\<lambda>j. p * j) ` survivors D m" using kj by blast
next
  fix k assume "k \<in> (\<lambda>j. p * j) ` survivors D m"
  then obtain j where j: "j \<in> survivors D m" and kj: "k = p * j" by blast
  have "\<not> q dvd k" if "q \<in> D" for q
  proof -
    have "coprime q p" using assms that by blast
    hence "q dvd p * j \<longleftrightarrow> q dvd j" by (rule coprime_dvd_mult_right_iff)
    thus ?thesis using j that kj by (simp add: survivors_def)
  qed
  moreover have "1 \<le> k" "k \<le> p * m" using j kj assms(1) by (auto simp: survivors_def Suc_le_eq)
  ultimately show "k \<in> {k \<in> survivors D (p * m). p dvd k}" using kj by (simp add: survivors_def)
qed

lemma survivors_insert:
  "survivors (insert p D) N = survivors D N - {k \<in> survivors D N. p dvd k}"
  by (auto simp: survivors_def)

lemma card_survivors_insert:
  assumes "0 < p" "\<forall>q\<in>D. coprime q p" "\<forall>q\<in>D. q dvd n" "p dvd n"
  shows "int (card (survivors (insert p D) n))
         = int (card (survivors D n)) - int (card (survivors D n)) div int p"
proof -
  from assms(4) obtain m where n: "n = p * m" by (auto elim: dvdE)
  have qm: "\<forall>q\<in>D. q dvd m"
  proof
    fix q assume q: "q \<in> D"
    hence "coprime q p" "q dvd p * m" using assms n by auto
    thus "q dvd m" by (simp add: coprime_dvd_mult_right_iff)
  qed
  have all: "card (survivors D n) = p * card (survivors D m)"
    using card_survivors_mult[OF qm, of p] by (simp add: n mult.commute)
  have mult: "card {k \<in> survivors D n. p dvd k} = card (survivors D m)"
  proof -
    have "inj_on (\<lambda>j. p * j) (survivors D m)" using assms(1) by (auto intro: inj_onI)
    thus ?thesis unfolding n survivors_multiples[OF assms(1,2)] by (rule card_image)
  qed
  have "card (survivors (insert p D) n)
        = card (survivors D n) - card {k \<in> survivors D n. p dvd k}"
    unfolding survivors_insert by (rule card_Diff_subset) auto
  hence "card (survivors (insert p D) n) = p * card (survivors D m) - card (survivors D m)"
    by (simp only: all mult)
  moreover have "card (survivors D m) \<le> p * card (survivors D m)" using assms(1) by simp
  ultimately have "int (card (survivors (insert p D) n))
      = int p * int (card (survivors D m)) - int (card (survivors D m))"
    by (simp add: of_nat_diff)
  moreover have "int (card (survivors D n)) div int p = int (card (survivors D m))"
    using assms(1) by (simp add: all)
  ultimately show ?thesis by (simp add: all)
qed

lemma prime_factor_exists: "1 < n \<Longrightarrow> \<exists>q. is_prime q \<and> q dvd n"
proof (induction n rule: less_induct)
  case (less n)
  show ?case
  proof (cases "is_prime n")
    case True
    thus ?thesis by (intro exI[of _ n]) simp
  next
    case False
    then obtain d where d: "d dvd n" "d \<noteq> 1" "d \<noteq> n"
      using less.prems by (auto simp: is_prime_def)
    have "d \<le> n" using d(1) less.prems by (intro dvd_imp_le) auto
    moreover have "d \<noteq> 0" using d(1) less.prems by (intro notI) simp
    ultimately have "d < n" "1 < d" using d by auto
    from less.IH[OF this] obtain q where "is_prime q" "q dvd d" by blast
    thus ?thesis using d(1) by (blast intro: dvd_trans)
  qed
qed

lemma primes_coprime:
  assumes "is_prime p" "is_prime q" "p \<noteq> q"
  shows "coprime p q"
proof (rule coprimeI)
  fix d assume "d dvd p" "d dvd q"
  hence "d = 1 \<or> d = p" "d = 1 \<or> d = q" using assms by (auto simp: is_prime_def)
  thus "is_unit d" using assms(3) by auto
qed

lemma coprime_iff_no_common_prime:
  "coprime k n \<longleftrightarrow> (\<forall>q. is_prime q \<and> q dvd n \<longrightarrow> \<not> q dvd k)"
proof
  assume c: "coprime k n"
  show "\<forall>q. is_prime q \<and> q dvd n \<longrightarrow> \<not> q dvd k"
  proof (intro allI impI notI)
    fix q assume "is_prime q \<and> q dvd n" "q dvd k"
    hence "is_unit q" "1 < q" using c by (auto simp: is_prime_def dest: coprime_common_divisor)
    thus False by simp
  qed
next
  assume r: "\<forall>q. is_prime q \<and> q dvd n \<longrightarrow> \<not> q dvd k"
  show "coprime k n"
  proof (rule ccontr)
    assume "\<not> coprime k n"
    hence g: "gcd k n \<noteq> 1" by (simp add: coprime_iff_gcd_eq_1)
    have "\<exists>q. is_prime q \<and> q dvd gcd k n"
    proof (cases "gcd k n = 0")
      case True
      have "is_prime 2" 
      proof -
        have "d = 1 \<or> d = 2" if "d dvd 2" for d :: nat
        proof -
          have "d \<le> 2" using that by (intro dvd_imp_le) auto
          moreover have "d \<noteq> 0" using that by (intro notI) simp
          ultimately show ?thesis by auto
        qed
        thus ?thesis by (simp add: is_prime_def)
      qed
      thus ?thesis using True by auto
    next
      case False
      hence "0 < gcd k n" by (simp only: neq0_conv)
      hence "1 < gcd k n" using g by linarith
      thus ?thesis by (rule prime_factor_exists)
    qed
    then obtain q where "is_prime q" "q dvd gcd k n" by blast
    thus False using r by auto
  qed
qed

lemma totient_ref_card: "totient_ref n = card {k. 1 \<le> k \<and> k \<le> n \<and> coprime k n}"
proof -
  have "totient_ref n = card ({k. coprime k n} \<inter> set [1..<Suc n])"
    unfolding totient_ref_def by (rule distinct_length_filter) simp
  also have "{k. coprime k n} \<inter> set [1..<Suc n] = {k. 1 \<le> k \<and> k \<le> n \<and> coprime k n}"
    by auto
  finally show ?thesis .
qed

lemma totient_ref_survivors:
  "totient_ref n = card (survivors {q. is_prime q \<and> q dvd n} n)"
  unfolding totient_ref_card survivors_def
  by (simp add: coprime_iff_no_common_prime[of _ n])

lemma prime_divs_upto_all:
  assumes "1 \<le> n" "n \<le> p"
  shows "prime_divs_upto p n = {q. is_prime q \<and> q dvd n}"
proof -
  have "q \<le> p" if "q dvd n" for q
  proof -
    have "q \<le> n" using that assms by (intro dvd_imp_le) auto
    thus ?thesis using assms by simp
  qed
  thus ?thesis by (auto simp: prime_divs_upto_def)
qed

section \<open>Correctness of the totient sieve\<close>

text \<open>What \<open>py_range\<close> enumerates, and what a pass of in-place updates at distinct
  indices leaves in the table.\<close>

lemma py_range_props:
  "0 < step \<Longrightarrow>
   set (py_range start stop step) = {k. start \<le> k \<and> k < stop \<and> step dvd (k - start)}
   \<and> distinct (py_range start stop step)"
proof (induction start stop step rule: py_range.induct)
  case (1 start stop step)
  show ?case
  proof (cases "start < stop")
    case False
    thus ?thesis by (subst (1 2) py_range.simps) auto
  next
    case True
    from "1.IH" True "1.prems"
    have IH: "set (py_range (start + step) stop step)
              = {k. start + step \<le> k \<and> k < stop \<and> step dvd (k - (start + step))}"
         "distinct (py_range (start + step) stop step)"
      by auto
    have unf: "py_range start stop step = start # py_range (start + step) stop step"
      using True "1.prems" by (subst py_range.simps) simp
    have "{k. start \<le> k \<and> k < stop \<and> step dvd (k - start)}
          = insert start {k. start + step \<le> k \<and> k < stop \<and> step dvd (k - (start + step))}"
    proof (intro set_eqI iffI)
      fix k assume k: "k \<in> {k. start \<le> k \<and> k < stop \<and> step dvd (k - start)}"
      show "k \<in> insert start {k. start + step \<le> k \<and> k < stop \<and> step dvd (k - (start + step))}"
      proof (cases "k = start")
        case False
        hence "0 < k - start" using k by simp
        moreover have d: "step dvd (k - start)" using k by simp
        ultimately have "step \<le> k - start" by (intro zdvd_imp_le)
        moreover have "step dvd (k - start - step)" using d by simp
        ultimately show ?thesis using k by (simp add: algebra_simps)
      qed simp
    next
      fix k assume "k \<in> insert start {k. start + step \<le> k \<and> k < stop \<and> step dvd (k - (start + step))}"
      thus "k \<in> {k. start \<le> k \<and> k < stop \<and> step dvd (k - start)}"
      proof
        assume "k = start" thus ?thesis using True by simp
      next
        assume k: "k \<in> {k. start + step \<le> k \<and> k < stop \<and> step dvd (k - (start + step))}"
        hence "step dvd (k - (start + step) + step)" by (intro dvd_add) simp_all
        thus ?thesis using k "1.prems" by (simp add: algebra_simps)
      qed
    qed
    moreover have "start \<notin> set (py_range (start + step) stop step)"
      using IH(1) "1.prems" by simp
    ultimately show ?thesis using IH unf by simp
  qed
qed

lemma foldl_update_distinct:
  "distinct ks \<Longrightarrow> \<forall>k\<in>set ks. k < length A \<Longrightarrow>
   length (foldl (\<lambda>A k. A[k := g (A ! k)]) A ks) = length A
   \<and> (\<forall>n<length A. foldl (\<lambda>A k. A[k := g (A ! k)]) A ks ! n
                      = (if n \<in> set ks then g (A ! n) else A ! n))"
proof (induction ks arbitrary: A)
  case Nil
  show ?case by simp
next
  case (Cons k ks)
  let ?A = "A[k := g (A ! k)]"
  from Cons.prems have "distinct ks" "\<forall>j\<in>set ks. j < length ?A" by auto
  from Cons.IH[OF this]
  have IH: "length (foldl (\<lambda>A k. A[k := g (A ! k)]) ?A ks) = length A"
    "\<And>n. n < length A \<Longrightarrow> foldl (\<lambda>A k. A[k := g (A ! k)]) ?A ks ! n
                      = (if n \<in> set ks then g (?A ! n) else ?A ! n)"
    by auto
  have "foldl (\<lambda>A k. A[k := g (A ! k)]) (A) (k # ks) ! n
        = (if n \<in> set (k # ks) then g (A ! n) else A ! n)" if n: "n < length A" for n
  proof (cases "n = k")
    case True
    hence "n \<notin> set ks" using Cons.prems by auto
    thus ?thesis using IH(2)[OF n] True n by simp
  next
    case False
    thus ?thesis using IH(2)[OF n] by simp
  qed
  thus ?case using IH(1) by simp
qed

lemma sieve_inner_nth:
  assumes "0 < p" "0 \<le> Q" "length A = nat Q + 1"
  shows "length (sieve_inner Q p A) = nat Q + 1"
    and "n \<le> nat Q \<Longrightarrow> sieve_inner Q p A ! n
           = (if p dvd int n \<and> 0 < n then A ! n - A ! n div p else A ! n)"
proof -
  let ?ks = "py_range p (Q + 1) p"
  let ?g = "\<lambda>v. v - v div p"
  have set_ks: "set ?ks = {k. p \<le> k \<and> k < Q + 1 \<and> p dvd (k - p)}" and dist: "distinct ?ks"
    using py_range_props[OF assms(1), of p "Q + 1"] by auto
  have eq: "sieve_inner Q p A = foldl (\<lambda>A k. A[k := ?g (A ! k)]) A (map nat ?ks)"
    by (simp add: sieve_inner_def foldl_map)
  have "inj_on nat (set ?ks)"
    using set_ks assms(1) by (intro inj_onI) auto
  hence d: "distinct (map nat ?ks)" using dist by (simp add: distinct_map)
  have b: "\<forall>k\<in>set (map nat ?ks). k < length A"
    using set_ks assms by auto
  from foldl_update_distinct[OF d b, of ?g]
  have len: "length (sieve_inner Q p A) = length A"
    and nth: "\<And>n. n < length A \<Longrightarrow> sieve_inner Q p A ! n
                = (if n \<in> set (map nat ?ks) then ?g (A ! n) else A ! n)"
    unfolding eq by auto
  show "length (sieve_inner Q p A) = nat Q + 1" using len assms by simp
  show "sieve_inner Q p A ! n = (if p dvd int n \<and> 0 < n then A ! n - A ! n div p else A ! n)"
    if n: "n \<le> nat Q"
  proof -
    have "n \<in> set (map nat ?ks) \<longleftrightarrow> p dvd int n \<and> 0 < n"
    proof
      assume "n \<in> set (map nat ?ks)"
      then obtain k where k: "p \<le> k" "k < Q + 1" "p dvd (k - p)" "n = nat k"
        using set_ks by auto
      have "p dvd (k - p + p)" using k(3) by (intro dvd_add) simp_all
      thus "p dvd int n \<and> 0 < n" using k assms(1) by simp
    next
      assume a: "p dvd int n \<and> 0 < n"
      hence "p \<le> int n" using assms(1) by (intro zdvd_imp_le) auto
      moreover have "int n < Q + 1" using n assms(2) by simp
      moreover have "p dvd (int n - p)" using a by simp
      ultimately have "int n \<in> set ?ks" using set_ks by simp
      hence "nat (int n) \<in> set (map nat ?ks)" by (simp only: set_map imageI)
      thus "n \<in> set (map nat ?ks)" by simp
    qed
    moreover have "n < length A" using n assms by simp
    ultimately show ?thesis using nth by simp
  qed
qed

lemma prime_divs_upto_one [simp]: "prime_divs_upto (Suc 0) n = {}"
  by (auto simp: prime_divs_upto_def is_prime_def)

lemma prime_divs_upto_Suc:
  "prime_divs_upto (Suc p) n
   = (if is_prime (Suc p) \<and> Suc p dvd n then insert (Suc p) (prime_divs_upto p n)
      else prime_divs_upto p n)"
  by (auto simp: prime_divs_upto_def le_Suc_eq)

lemma card_survivors_full:
  "card (survivors D N) = N \<longleftrightarrow> (\<forall>k. 1 \<le> k \<and> k \<le> N \<longrightarrow> (\<forall>q\<in>D. \<not> q dvd k))"
proof
  assume c: "card (survivors D N) = N"
  have sub: "survivors D N \<subseteq> {1..N}" by (auto simp: survivors_def)
  have "survivors D N = {1..N}"
    by (rule card_subset_eq[OF _ sub]) (simp_all add: c)
  thus "\<forall>k. 1 \<le> k \<and> k \<le> N \<longrightarrow> (\<forall>q\<in>D. \<not> q dvd k)"
    by (auto simp: survivors_def)
next
  assume "\<forall>k. 1 \<le> k \<and> k \<le> N \<longrightarrow> (\<forall>q\<in>D. \<not> q dvd k)"
  hence "survivors D N = {1..N}" by (auto simp: survivors_def)
  thus "card (survivors D N) = N" by simp
qed

text \<open>The test \<^verbatim>\<open>phi[p] == p\<close> of the sieve is a primality test.\<close>

lemma untouched_iff_prime:
  assumes "1 \<le> p"
  shows "card (survivors (prime_divs_upto p (Suc p)) (Suc p)) = Suc p \<longleftrightarrow> is_prime (Suc p)"
proof
  assume c: "card (survivors (prime_divs_upto p (Suc p)) (Suc p)) = Suc p"
  show "is_prime (Suc p)"
  proof (rule ccontr)
    assume np: "\<not> is_prime (Suc p)"
    have "1 < Suc p" using assms by simp
    from prime_factor_exists[OF this] obtain q where q: "is_prime q" "q dvd Suc p" by blast
    have "q \<le> Suc p" using q(2) by (intro dvd_imp_le) auto
    moreover have "q \<noteq> Suc p" using q(1) np by auto
    ultimately have qD: "q \<in> prime_divs_upto p (Suc p)" using q by (simp add: prime_divs_upto_def)
    have qr: "1 \<le> q \<and> q \<le> Suc p" using q \<open>q \<le> Suc p\<close> by (auto simp: is_prime_def)
    from c have "\<forall>k. 1 \<le> k \<and> k \<le> Suc p \<longrightarrow> (\<forall>q\<in>prime_divs_upto p (Suc p). \<not> q dvd k)"
      by (simp only: card_survivors_full)
    hence "\<forall>r\<in>prime_divs_upto p (Suc p). \<not> r dvd q" using qr by (elim allE[of _ q]) simp
    hence "\<not> q dvd q" using qD by (rule bspec)
    thus False by simp
  qed
next
  assume pr: "is_prime (Suc p)"
  have "prime_divs_upto p (Suc p) = {}"
  proof -
    have False if "is_prime q" "q \<le> p" "q dvd Suc p" for q
      using that pr by (auto simp: is_prime_def)
    thus ?thesis by (auto simp: prime_divs_upto_def)
  qed
  thus "card (survivors (prime_divs_upto p (Suc p)) (Suc p)) = Suc p"
    by (simp add: survivors_empty)
qed

lemma sieve_inv_init:
  assumes "0 \<le> Q"
  shows "sieve_inv Q (Suc 0) [0..Q]"
proof -
  have "[0..Q] ! n = int n" if "n \<le> nat Q" for n
    using that assms by (simp add: nth_upto)
  thus ?thesis using assms by (simp add: sieve_inv_def survivors_empty)
qed

lemma sieve_inv_step:
  assumes inv: "sieve_inv Q p A" and p: "1 \<le> p" "Suc p \<le> nat Q"
  shows "sieve_inv Q (Suc p) (sieve_step Q A (int (Suc p)))"
proof -
  define ip where "ip = int (Suc p)"
  have pos: "0 < ip" and natip: "nat ip = Suc p" by (simp_all add: ip_def)
  have dvd_ip: "ip dvd int n \<longleftrightarrow> Suc p dvd n" for n
    unfolding ip_def by (rule int_dvd_int_iff)
  have Q: "0 \<le> Q" using p by simp
  have len: "length A = nat Q + 1"
    and A: "\<And>n. n \<le> nat Q \<Longrightarrow> A ! n = int (card (survivors (prime_divs_upto p n) n))"
    using inv by (auto simp: sieve_inv_def)
  have "A ! Suc p = int (Suc p) \<longleftrightarrow> card (survivors (prime_divs_upto p (Suc p)) (Suc p)) = Suc p"
    unfolding A[OF p(2)] by (rule of_nat_eq_iff)
  hence test: "A ! nat ip = ip \<longleftrightarrow> is_prime (Suc p)"
    unfolding natip using untouched_iff_prime[OF p(1)] by (simp only: ip_def)
  note inner = sieve_inner_nth[OF pos Q len]
  have "sieve_inv Q (Suc p) (sieve_step Q A ip)"
  proof (cases "is_prime (Suc p)")
    case False
    hence "sieve_step Q A ip = A" using test by (simp add: sieve_step_def)
    moreover have "prime_divs_upto (Suc p) n = prime_divs_upto p n" for n
      using False by (simp add: prime_divs_upto_Suc)
    ultimately show ?thesis using inv by (simp add: sieve_inv_def)
  next
    case True
    hence st: "sieve_step Q A ip = sieve_inner Q ip A"
      using test by (simp add: sieve_step_def)
    have "sieve_inner Q ip A ! n = int (card (survivors (prime_divs_upto (Suc p) n) n))"
      if n: "n \<le> nat Q" for n
    proof (cases "Suc p dvd n \<and> 0 < n")
      case False
      have "card (survivors (prime_divs_upto (Suc p) n) n) = card (survivors (prime_divs_upto p n) n)"
      proof (cases "n = 0")
        case True thus ?thesis by simp
      next
        case False
        with \<open>\<not> (Suc p dvd n \<and> 0 < n)\<close> have "\<not> Suc p dvd n" by simp
        thus ?thesis by (simp add: prime_divs_upto_Suc)
      qed
      moreover have "sieve_inner Q ip A ! n = A ! n"
        using False inner(2)[OF n] by (auto simp: dvd_ip)
      ultimately show ?thesis using A[OF n] by simp
    next
      case d: True
      let ?D = "prime_divs_upto p n"
      have cop: "\<forall>q\<in>?D. coprime q (Suc p)"
      proof
        fix q assume "q \<in> ?D"
        hence "is_prime q" "q \<noteq> Suc p" by (auto simp: prime_divs_upto_def)
        thus "coprime q (Suc p)" using True by (intro primes_coprime)
      qed
      have dv: "\<forall>q\<in>?D. q dvd n" by (simp add: prime_divs_upto_def)
      have "int (card (survivors (insert (Suc p) ?D) n))
            = int (card (survivors ?D n)) - int (card (survivors ?D n)) div int (Suc p)"
        using d by (intro card_survivors_insert[OF _ cop dv]) simp_all
      moreover have "prime_divs_upto (Suc p) n = insert (Suc p) ?D"
        using True d by (simp add: prime_divs_upto_Suc)
      moreover have "sieve_inner Q ip A ! n = A ! n - A ! n div ip"
        using d inner(2)[OF n] by (simp add: dvd_ip)
      ultimately show ?thesis unfolding A[OF n] ip_def by (simp only:)
    qed
    thus ?thesis using inner(1) st by (simp add: sieve_inv_def)
  qed
  thus ?thesis by (simp only: ip_def)
qed
lemma sieve_inv_loop:
  assumes "0 \<le> Q" "1 \<le> m" "m \<le> nat Q"
  shows "sieve_inv Q m (foldl (sieve_step Q) [0..Q] [2..int m])"
  using assms(2,3)
proof (induction m rule: dec_induct)
  case base
  show ?case using sieve_inv_init[OF assms(1)] by simp
next
  case (step p)
  have "[2..int (Suc p)] = [2..int p] @ [int (Suc p)]"
    using step.hyps(1) by (subst upto_rec2) simp_all
  moreover have "sieve_inv Q p (foldl (sieve_step Q) [0..Q] [2..int p])"
    using step by simp
  ultimately show ?case
    using sieve_inv_step[OF _ _ step.prems, of "foldl (sieve_step Q) [0..Q] [2..int p]"] step.hyps(1)
    by simp
qed

lemma sieve_loop_totient:
  assumes "0 \<le> Q"
  shows "length (sieve_loop Q [0..Q]) = nat Q + 1"
    and "n \<le> nat Q \<Longrightarrow> sieve_loop Q [0..Q] ! n = int (totient_ref n)"
proof -
  define m where "m = max 1 (nat Q)"
  have "\<exists>p. sieve_inv Q p (sieve_loop Q [0..Q]) \<and> nat Q \<le> p"
  proof (cases "1 \<le> nat Q")
    case True
    from sieve_inv_loop[OF assms True order_refl] assms
    show ?thesis by (auto simp: sieve_loop_def)
  next
    case False
    hence "[2..Q] = []" by simp
    hence "sieve_loop Q [0..Q] = [0..Q]" by (simp add: sieve_loop_def)
    thus ?thesis using sieve_inv_init[OF assms] False by (intro exI[of _ "Suc 0"]) simp
  qed
  then obtain p where inv: "sieve_inv Q p (sieve_loop Q [0..Q])" and p: "nat Q \<le> p" by blast
  show "length (sieve_loop Q [0..Q]) = nat Q + 1" using inv by (simp add: sieve_inv_def)
  show "sieve_loop Q [0..Q] ! n = int (totient_ref n)" if n: "n \<le> nat Q"
  proof (cases "n = 0")
    case True
    thus ?thesis using inv n by (simp add: sieve_inv_def totient_ref_survivors)
  next
    case False
    hence "prime_divs_upto p n = {q. is_prime q \<and> q dvd n}"
      using n p by (intro prime_divs_upto_all) auto
    thus ?thesis using inv n by (simp add: sieve_inv_def totient_ref_survivors)
  qed
qed

text \<open>
  Claim C1. For every integer \<open>Q \<ge> 0\<close>, \<open>sieve_phi Q\<close> returns a list of length
  \<open>Q + 1\<close> whose entry \<open>n\<close> is Euler's totient of \<open>n\<close>, the number of integers in
  \<open>[1, n]\<close> coprime to \<open>n\<close>, for every \<open>n\<close> in \<open>[0, Q]\<close>; entry 0 is 0.
\<close>

theorem sieve_phi_totient:
  assumes "0 \<le> Q"
  shows "\<exists>phi. sieve_phi Q = Inr phi \<and> length phi = nat Q + 1
           \<and> (\<forall>n\<le>nat Q. phi ! n = int (totient_ref n)) \<and> phi ! 0 = 0"
proof -
  have "sieve_loop Q [0..Q] ! 0 = int (totient_ref 0)"
    by (rule sieve_loop_totient(2)[OF assms]) simp
  hence "sieve_loop Q [0..Q] ! 0 = 0" by (simp add: totient_ref_def)
  thus ?thesis using assms sieve_loop_totient[OF assms] by (simp add: sieve_phi_def)
qed

text \<open>The theorem at \<open>Q = 12\<close>: thirteen entries, the last one \<open>\<phi>(12) = 4\<close>.\<close>

theorem sieve_phi_totient_witness:
  "(0::int) \<le> 12 \<and> (\<exists>phi. sieve_phi 12 = Inr phi \<and> length phi = 13 \<and> phi ! 12 = 4 \<and> phi ! 0 = 0)"
proof -
  have h: "(0::int) \<le> 12" by simp
  have t: "totient_ref 12 = 4" by code_simp
  from sieve_phi_totient[OF h] obtain phi where phi: "sieve_phi 12 = Inr phi"
    "length phi = nat 12 + 1" "\<forall>n\<le>nat 12. phi ! n = int (totient_ref n)" "phi ! 0 = 0"
    by blast
  from phi(3) have "phi ! 12 = int (totient_ref 12)" by simp
  with phi t show ?thesis by simp
qed

section \<open>Correctness of the trial-division totient\<close>

text \<open>
  The inner loop divides \<open>p\<close> out of \<open>x\<close> completely, and returns. The outer loop keeps:
  \<open>x\<close> divides \<open>n\<close>; every prime divisor of \<open>x\<close> is at least \<open>p\<close>; every prime
  divisor of \<open>n\<close> that is at least \<open>p\<close> still divides \<open>x\<close>; and \<open>r\<close> counts the
  survivors of \<open>[1, n]\<close> under the prime divisors of \<open>n\<close> below \<open>p\<close>. The candidates
  \<open>p\<close> run through 2 and the odd numbers, which is enough because an even number
  above 2 is not prime.
\<close>

lemma phi_strip_result:
  fixes x p :: nat
  assumes "1 \<le> x" "2 \<le> p"
  shows "\<exists>x'. phi_strip (int x) (int p) = Some (int x') \<and> 1 \<le> x' \<and> x' \<le> x
              \<and> \<not> p dvd x' \<and> (\<exists>a. x = x' * p ^ a)"
  using assms(1)
proof (induction x rule: less_induct)
  case (less x)
  have md: "int x mod int p = 0 \<longleftrightarrow> p dvd x"
    by (simp add: mod_eq_0_iff_dvd)
  show ?case
  proof (cases "p dvd x")
    case False
    have "x = x * p ^ 0" by simp
    hence "\<exists>a. x = x * p ^ a" by (rule exI)
    thus ?thesis using False less.prems md by (subst phi_strip.simps) auto
  next
    case True
    then obtain y where y: "x = p * y" by (auto elim: dvdE)
    have ypos: "1 \<le> y" using less.prems y by (cases "y = 0") auto
    have ylt: "y < x" using y ypos assms(2) by simp
    from less.IH[OF ylt ypos] obtain x' a where
      x': "phi_strip (int y) (int p) = Some (int x')" "1 \<le> x'" "x' \<le> y" "\<not> p dvd x'"
      "y = x' * p ^ a" by blast
    have "int x div int p = int y" using y assms(2) by (simp add: zdiv_int[symmetric])
    hence "phi_strip (int x) (int p) = Some (int x')"
      using True md x'(1) by (subst phi_strip.simps) simp
    moreover have "x = x' * p ^ Suc a" using y x'(5) by simp
    hence "\<exists>a. x = x' * p ^ a" by (rule exI)
    ultimately show ?thesis using x' ylt by auto
  qed
qed

lemma even_not_prime: "even m \<Longrightarrow> 2 < m \<Longrightarrow> \<not> is_prime m"
  by (auto simp: is_prime_def)

lemma is_prime_two: "is_prime 2"
proof -
  have "d = 1 \<or> d = 2" if "d dvd 2" for d :: nat
  proof -
    have "d \<le> 2" using that by (intro dvd_imp_le) auto
    moreover have "d \<noteq> 0" using that by (intro notI) simp
    ultimately show ?thesis by auto
  qed
  thus ?thesis by (simp add: is_prime_def)
qed

lemma prime_divs_upto_next:
  assumes "2 \<le> p" "p = 2 \<or> odd p"
  shows "prime_divs_upto (p + (if p = 2 then 1 else 2) - 1) n
         = (if is_prime p \<and> p dvd n then insert p (prime_divs_upto (p - 1) n)
            else prime_divs_upto (p - 1) n)"
proof -
  obtain m where m: "p = Suc m" using assms(1) by (cases p) auto
  show ?thesis
  proof (cases "p = 2")
    case True
    thus ?thesis using m by (simp add: prime_divs_upto_Suc)
  next
    case False
    hence "even (Suc p)" "2 < Suc p" using assms by auto
    hence "\<not> is_prime (Suc p)" by (rule even_not_prime)
    hence "prime_divs_upto (Suc p) n = prime_divs_upto p n"
      by (simp add: prime_divs_upto_Suc)
    moreover have "p + (if p = 2 then 1 else 2) - 1 = Suc p" using False by simp
    ultimately show ?thesis using m by (simp add: prime_divs_upto_Suc)
  qed
qed

lemma prime_ge_next:
  assumes "is_prime q" "p \<le> q" "q \<noteq> p" "2 \<le> p" "p = 2 \<or> odd p"
  shows "p + (if p = 2 then 1 else 2) \<le> q"
proof (cases "p = 2")
  case True
  thus ?thesis using assms by simp
next
  case False
  have "q \<noteq> Suc p"
  proof
    assume "q = Suc p"
    moreover have "even (Suc p)" "2 < Suc p" using False assms by auto
    ultimately show False using assms(1) even_not_prime by blast
  qed
  thus ?thesis using assms False by simp
qed

lemma prime_dvd_prime_power:
  assumes "is_prime q" "is_prime p" "q \<noteq> p" "q dvd x * p ^ a"
  shows "q dvd x"
proof -
  have "coprime q p" using assms by (intro primes_coprime)
  hence "coprime q (p ^ a)" by simp
  thus ?thesis using assms(4) by (simp add: coprime_dvd_mult_left_iff)
qed

lemma prime_ge_two: "is_prime q \<Longrightarrow> 2 \<le> q"
  by (simp add: is_prime_def)

lemma no_small_factor_prime:
  fixes x p :: nat
  assumes "1 < x" "x < p * p" "\<forall>q. is_prime q \<and> q dvd x \<longrightarrow> p \<le> q"
  shows "is_prime x"
proof -
  have big: "p \<le> d" if "d dvd x" "d \<noteq> 1" for d
  proof -
    have "d \<noteq> 0" using that(1) assms(1) by (intro notI) simp
    hence "1 < d" using that(2) by simp
    from prime_factor_exists[OF this] obtain q where q: "is_prime q" "q dvd d" by blast
    hence "q dvd x" using that(1) by (blast intro: dvd_trans)
    hence "p \<le> q" using q assms(3) by blast
    moreover have "q \<le> d" using q(2) \<open>d \<noteq> 0\<close> by (intro dvd_imp_le) auto
    ultimately show ?thesis by simp
  qed
  have "d = 1 \<or> d = x" if d: "d dvd x" for d
  proof (rule ccontr)
    assume n: "\<not> (d = 1 \<or> d = x)"
    from d obtain e where e: "x = d * e" by (auto elim: dvdE)
    have "e dvd x" using e by simp
    moreover have "e \<noteq> 1" using e n by auto
    ultimately have "p \<le> e" by (rule big)
    moreover have "p \<le> d" using d n by (intro big) auto
    ultimately have "p * p \<le> d * e" by (rule mult_le_mono[rotated])
    thus False using e assms(2) by simp
  qed
  thus ?thesis using assms(1) by (simp add: is_prime_def)
qed

lemma phi_loop_correct:
  fixes n x p :: nat
  assumes "1 \<le> x" "x dvd n" "2 \<le> p" "p = 2 \<or> odd p"
    "\<forall>q. is_prime q \<and> q dvd x \<longrightarrow> p \<le> q"
    "\<forall>q. is_prime q \<and> q dvd n \<and> p \<le> q \<longrightarrow> q dvd x"
  shows "phi_loop (int x) (int (card (survivors (prime_divs_upto (p - 1) n) n))) (int p)
         = Some (int (totient_ref n))"
  using assms
proof (induction "x + 1 - p" arbitrary: x p rule: less_induct)
  case less
  note x1 = less.prems(1) and xn = less.prems(2) and p2 = less.prems(3) and par = less.prems(4)
    and lo = less.prems(5) and hi = less.prems(6)
  let ?D = "prime_divs_upto (p - 1) n"
  let ?r = "int (card (survivors ?D n))"
  define p' where "p' = p + (if p = 2 then 1 else 2)"
  have ip': "int p + (if int p = 2 then 1 else 2) = int p'" by (simp add: p'_def)
  have p'2: "2 \<le> p'" "p' = 2 \<or> odd p'" "p < p'" using p2 par by (auto simp: p'_def)
  have sq: "int p * int p \<le> int x \<longleftrightarrow> p * p \<le> x"
    by (simp only: of_nat_mult[symmetric] of_nat_le_iff)
  have md: "int x mod int p = 0 \<longleftrightarrow> p dvd x"
    by (simp add: mod_eq_0_iff_dvd)
  have Dprops: "\<forall>q\<in>?D. is_prime q \<and> q < p \<and> q dvd n"
    using p2 by (auto simp: prime_divs_upto_def)
  show ?case
  proof (cases "p * p \<le> x")
    case True
    have px: "p \<le> x"
      using le_square[of p] True by (rule order_trans)
    have c1: "int p * int p \<le> int x" using True sq by simp
    show ?thesis
    proof (cases "p dvd x")
      case dv: True
      have c2: "int x mod int p = 0" using dv md by simp
      have pr: "is_prime p"
      proof -
        have "1 < p" using p2 by simp
        from prime_factor_exists[OF this] obtain q where q: "is_prime q" "q dvd p" by blast
        hence "q dvd x" using dv by (blast intro: dvd_trans)
        hence "p \<le> q" using q lo by blast
        moreover have "q \<le> p" using q(2) p2 by (intro dvd_imp_le) auto
        ultimately show ?thesis using q(1) by simp
      qed
      have pn: "p dvd n" using dv xn by (rule dvd_trans)
      from phi_strip_result[OF x1 p2] obtain x' a where
        x': "phi_strip (int x) (int p) = Some (int x')" "1 \<le> x'" "x' \<le> x" "\<not> p dvd x'"
        "x = x' * p ^ a" by blast
      have x'x: "x' dvd x" using x'(5) by simp
      have lo': "\<forall>q. is_prime q \<and> q dvd x' \<longrightarrow> p' \<le> q"
      proof (intro allI impI)
        fix q assume q: "is_prime q \<and> q dvd x'"
        hence "q dvd x" using x'x by (blast intro: dvd_trans)
        hence "p \<le> q" using q lo by blast
        moreover have "q \<noteq> p" using q x'(4) by auto
        ultimately show "p' \<le> q" unfolding p'_def using q p2 par by (intro prime_ge_next) auto
      qed
      have hi': "\<forall>q. is_prime q \<and> q dvd n \<and> p' \<le> q \<longrightarrow> q dvd x'"
      proof (intro allI impI)
        fix q assume q: "is_prime q \<and> q dvd n \<and> p' \<le> q"
        hence "q dvd x' * p ^ a" using hi p'2(3) x'(5) by auto
        moreover have "q \<noteq> p" using q p'2(3) by auto
        ultimately show "q dvd x'" using q pr by (intro prime_dvd_prime_power[of q p x' a]) auto
      qed
      have cop: "\<forall>q\<in>?D. coprime q p"
      proof
        fix q assume "q \<in> ?D"
        hence "is_prime q" "q \<noteq> p" using Dprops by auto
        thus "coprime q p" using pr by (intro primes_coprime)
      qed
      have dvn: "\<forall>q\<in>?D. q dvd n" using Dprops by blast
      have "int (card (survivors (insert p ?D) n)) = ?r - ?r div int p"
        using p2 pn by (intro card_survivors_insert[OF _ cop dvn]) auto
      moreover have "prime_divs_upto (p' - 1) n = insert p ?D"
        unfolding p'_def prime_divs_upto_next[OF p2 par] using pr pn by (simp only: simp_thms if_True)
      ultimately have r': "?r - ?r div int p = int (card (survivors (prime_divs_upto (p' - 1) n) n))"
        by simp
      have "x' + 1 - p' < x + 1 - p" using x'(3) p'2(3) px by simp
      from less.hyps[OF this x'(2) dvd_trans[OF x'x xn] p'2(1,2) lo' hi']
      have "phi_loop (int x') (?r - ?r div int p) (int p') = Some (int (totient_ref n))"
        by (simp only: r')
      moreover have "phi_loop (int x) ?r (int p)
          = Option.bind (phi_strip (int x) (int p))
              (\<lambda>y. phi_loop y (?r - ?r div int p) (int p + (if int p = 2 then 1 else 2)))"
        by (subst phi_loop.simps) (simp only: c1 c2 if_True simp_thms)
      ultimately show ?thesis by (simp only: x'(1) ip' Option.bind.simps)
    next
      case ndv: False
      have c2: "int x mod int p \<noteq> 0" using ndv md by simp
      have lo': "\<forall>q. is_prime q \<and> q dvd x \<longrightarrow> p' \<le> q"
      proof (intro allI impI)
        fix q assume q: "is_prime q \<and> q dvd x"
        hence "p \<le> q" using lo by blast
        moreover have "q \<noteq> p" using q ndv by auto
        ultimately show "p' \<le> q" unfolding p'_def using q p2 par by (intro prime_ge_next) auto
      qed
      have hi': "\<forall>q. is_prime q \<and> q dvd n \<and> p' \<le> q \<longrightarrow> q dvd x"
        using hi p'2(3) by auto
      have "\<not> (is_prime p \<and> p dvd n)" using hi ndv by auto
      hence D': "prime_divs_upto (p' - 1) n = ?D"
        unfolding p'_def prime_divs_upto_next[OF p2 par] by (simp only: if_False)
      have "x + 1 - p' < x + 1 - p" using p'2(3) px by simp
      from less.hyps[OF this x1 xn p'2(1,2) lo' hi']
      have "phi_loop (int x) ?r (int p') = Some (int (totient_ref n))"
        by (simp only: D')
      moreover have "phi_loop (int x) ?r (int p)
          = phi_loop (int x) ?r (int p + (if int p = 2 then 1 else 2))"
        by (subst phi_loop.simps) (simp only: c1 c2 if_True if_False simp_thms)
      ultimately show ?thesis by (simp only: ip')
    qed
  next
    case False
    hence unf: "phi_loop (int x) ?r (int p) = Some (if int x > 1 then ?r - ?r div int x else ?r)"
      by (subst phi_loop.simps) (simp add: sq del: of_nat_mult)
    show ?thesis
    proof (cases "1 < x")
      case True
      have xp: "is_prime x" using True False lo by (intro no_small_factor_prime[of x p]) auto
      hence px: "p \<le> x" using lo by auto
      have cop: "\<forall>q\<in>?D. coprime q x"
      proof
        fix q assume "q \<in> ?D"
        hence "is_prime q" "q \<noteq> x" using Dprops px by auto
        thus "coprime q x" using xp by (intro primes_coprime)
      qed
      have dvn: "\<forall>q\<in>?D. q dvd n" using Dprops by blast
      have "int (card (survivors (insert x ?D) n)) = ?r - ?r div int x"
        using True xn by (intro card_survivors_insert[OF _ cop dvn]) auto
      moreover have "insert x ?D = {q. is_prime q \<and> q dvd n}"
      proof (intro set_eqI iffI)
        fix q assume "q \<in> insert x ?D"
        thus "q \<in> {q. is_prime q \<and> q dvd n}" using xp xn Dprops by auto
      next
        fix q assume q: "q \<in> {q. is_prime q \<and> q dvd n}"
        show "q \<in> insert x ?D"
        proof (cases "p \<le> q")
          case True
          hence "q dvd x" using q hi by auto
          hence "q = x" using q xp by (auto simp: is_prime_def)
          thus ?thesis by simp
        next
          case False
          hence "q \<le> p - 1" by simp
          hence "q \<in> ?D" using q by (simp add: prime_divs_upto_def)
          thus ?thesis by simp
        qed
      qed
      ultimately have "?r - ?r div int x = int (totient_ref n)"
        by (simp add: totient_ref_survivors)
      thus ?thesis using unf True by simp
    next
      case F: False
      hence x: "x = 1" using x1 by simp
      have "?D = {q. is_prime q \<and> q dvd n}"
      proof (intro set_eqI iffI)
        fix q assume "q \<in> ?D"
        thus "q \<in> {q. is_prime q \<and> q dvd n}" using Dprops by auto
      next
        fix q assume q: "q \<in> {q. is_prime q \<and> q dvd n}"
        have "\<not> p \<le> q"
        proof
          assume "p \<le> q"
          hence "q dvd x" using q hi by auto
          thus False using x q by (auto simp: is_prime_def)
        qed
        thus "q \<in> ?D" using q by (simp add: prime_divs_upto_def)
      qed
      hence "?r = int (totient_ref n)" by (simp add: totient_ref_survivors)
      thus ?thesis using unf F by simp
    qed
  qed
qed

lemma phi_totient: "phi (int n) = Some (int (totient_ref n))"
proof (cases "n = 0")
  case True
  have "phi_loop 0 0 2 = Some 0" by (subst phi_loop.simps) simp
  thus ?thesis using True by (simp add: phi_def totient_ref_def)
next
  case False
  hence n1: "1 \<le> n" by simp
  have "phi_loop (int n) (int (card (survivors (prime_divs_upto (2 - 1) n) n))) (int 2)
        = Some (int (totient_ref n))"
    using n1 by (intro phi_loop_correct) (auto dest: prime_ge_two)
  moreover have "prime_divs_upto (2 - 1) n = {}" by simp
  ultimately show ?thesis by (simp add: phi_def survivors_empty)
qed

lemma totient_ref_pos:
  assumes "1 \<le> n"
  shows "1 \<le> totient_ref n"
proof -
  let ?S = "{k. 1 \<le> k \<and> k \<le> n \<and> coprime k n}"
  have "1 \<in> ?S" using assms by simp
  hence "?S \<noteq> {}" by blast
  moreover have "finite ?S" by simp
  ultimately have "0 < card ?S" by (simp add: card_gt_0_iff)
  thus ?thesis by (simp only: totient_ref_card)
qed

section \<open>The summation loops add the same terms\<close>

text \<open>
  Each loop, run over indices from 2 on and a table that holds the totient, adds the
  term of \<open>(q, \<phi>(q))\<close> for every index \<open>q\<close> in turn. No denominator is zero, so the
  float and the fraction loops do not raise, and the guard \<^verbatim>\<open>if ph:\<close> never skips.
\<close>

lemma harmonic_terms_nonzero:
  assumes "\<forall>q\<in>set qs. 2 \<le> q"
  shows "\<forall>q\<in>set qs. q * int (totient_ref (nat q)) \<noteq> 0 \<and> int (totient_ref (nat q)) \<noteq> 0"
proof
  fix q assume "q \<in> set qs"
  hence q: "2 \<le> q" using assms by blast
  hence "1 \<le> nat q" by simp
  hence "1 \<le> totient_ref (nat q)" by (rule totient_ref_pos)
  thus "q * int (totient_ref (nat q)) \<noteq> 0 \<and> int (totient_ref (nat q)) \<noteq> 0" using q by simp
qed

lemma harmonic_sum_phi_loop_terms:
  assumes "\<forall>q\<in>set qs. 2 \<le> q"
  shows "harmonic_sum_phi_loop fadd frecip qs s
         = Some (Inr (foldl (\<lambda>s (q, ph). fadd s (frecip (q * ph))) s
                        (map (\<lambda>q. (q, int (totient_ref (nat q)))) qs)))"
  using assms
proof (induction qs arbitrary: s)
  case Nil
  show ?case by simp
next
  case (Cons q qs)
  have q: "2 \<le> q" using Cons.prems by simp
  have "phi (int (nat q)) = Some (int (totient_ref (nat q)))" by (rule phi_totient)
  hence ph: "phi q = Some (int (totient_ref (nat q)))" using q by simp
  have nz: "q * int (totient_ref (nat q)) \<noteq> 0" "int (totient_ref (nat q)) \<noteq> 0"
    using harmonic_terms_nonzero[OF Cons.prems] by simp_all
  have "\<forall>q\<in>set qs. 2 \<le> q" using Cons.prems by simp
  from Cons.IH[OF this] show ?case using ph nz by simp
qed

lemma sieve_sum_loop_terms:
  assumes "\<forall>q\<in>set qs. 2 \<le> q \<and> tab ! nat q = int (totient_ref (nat q))"
  shows "sieve_sum_loop fadd frecip tab qs S
         = Inr (foldl (\<lambda>s (q, ph). fadd s (frecip (q * ph))) S
                  (map (\<lambda>q. (q, int (totient_ref (nat q)))) qs))"
  using assms
proof (induction qs arbitrary: S)
  case Nil
  show ?case by simp
next
  case (Cons q qs)
  have "\<forall>q\<in>set (q # qs). 2 \<le> q" using Cons.prems by simp
  from harmonic_terms_nonzero[OF this]
  have nz: "q * int (totient_ref (nat q)) \<noteq> 0" by simp
  have "\<forall>q\<in>set qs. 2 \<le> q \<and> tab ! nat q = int (totient_ref (nat q))" using Cons.prems by simp
  from Cons.IH[OF this] show ?case using Cons.prems nz by (simp add: Let_def)
qed

lemma fraction_sum_loop_terms:
  assumes "\<forall>q\<in>set qs. 2 \<le> q \<and> tab ! nat q = int (totient_ref (nat q))"
  shows "fraction_sum_loop tab qs S
         = Inr (foldl (\<lambda>S (q, ph). S + Fract 1 (q * ph)) S
                  (map (\<lambda>q. (q, int (totient_ref (nat q)))) qs))"
  using assms
proof (induction qs arbitrary: S)
  case Nil
  show ?case by simp
next
  case (Cons q qs)
  have "\<forall>q\<in>set (q # qs). 2 \<le> q" using Cons.prems by simp
  from harmonic_terms_nonzero[OF this]
  have nz: "q * int (totient_ref (nat q)) \<noteq> 0" by simp
  have "\<forall>q\<in>set qs. 2 \<le> q \<and> tab ! nat q = int (totient_ref (nat q))" using Cons.prems by simp
  from Cons.IH[OF this] show ?case using Cons.prems nz by (simp add: Let_def)
qed

lemma decimal_sum_loop_terms:
  assumes "\<forall>q\<in>set qs. tab ! nat q = int (totient_ref (nat q))"
  shows "decimal_sum_loop c tab qs S
         = sum_terms (decimal_term (ctx_prec c)) (map (\<lambda>q. (q, int (totient_ref (nat q)))) qs) S"
  using assms
proof (induction qs arbitrary: S)
  case Nil
  show ?case by simp
next
  case (Cons q qs)
  have "\<forall>q\<in>set qs. tab ! nat q = int (totient_ref (nat q))" using Cons.prems by simp
  from Cons.IH[OF this] show ?case using Cons.prems by (simp add: Let_def decimal_term_def)
qed

lemma sieve_table_terms:
  assumes "0 \<le> Q"
  shows "\<forall>q\<in>set [2..Q]. 2 \<le> q \<and> sieve_loop Q [0..Q] ! nat q = int (totient_ref (nat q))"
proof
  fix q assume "q \<in> set [2..Q]"
  hence q: "2 \<le> q" "q \<le> Q" by simp_all
  hence "nat q \<le> nat Q" by simp
  from sieve_loop_totient(2)[OF assms this] q
  show "2 \<le> q \<and> sieve_loop Q [0..Q] ! nat q = int (totient_ref (nat q))" by simp
qed

text \<open>
  Claim C9. For every \<open>Q \<ge> 0\<close> and every \<open>n\<close> in \<open>[0, Q]\<close>, the trial-division
  function \<open>phi\<close> returns at \<open>n\<close>, and returns entry \<open>n\<close> of \<open>sieve_phi Q\<close>; from
  \<open>n = 1\<close> on the value is positive. Consequently \<open>harmonic_sum_phi Q\<close> returns, and
  it adds the terms \<open>1/(q \<cdot> \<phi>(q))\<close> of the same list \<open>harmonic_terms Q\<close>, the pairs
  \<open>(q, tab[q])\<close> for \<open>q = 2, \<dots>, Q\<close> of the sieve table, in the same order, as the
  sieve-based loops do: the float loop of \<open>sieve_phi_sum\<close>, the exact loop of
  \<open>harmonic_sum_fraction\<close> and the decimal loop of \<open>harmonic_sum_decimal\<close> (at a
  precision the context accepts). Whatever the float addition and the float quotient
  are, the two float loops return the same value.
\<close>

theorem phi_agrees_with_sieve:
  assumes "0 \<le> n" "n \<le> Q"
  shows "\<exists>tab. sieve_phi Q = Inr tab \<and> phi n = Some (tab ! nat n)
               \<and> (1 \<le> n \<longrightarrow> 0 < tab ! nat n)
               \<and> map (\<lambda>q. (q, tab ! nat q)) [2..Q] = harmonic_terms Q
               \<and> harmonic_sum_phi fadd frecip fzero Q
                   = Some (Inr (foldl (\<lambda>s (q, ph). fadd s (frecip (q * ph))) fzero
                                  (harmonic_terms Q)))
               \<and> (\<exists>t. sieve_phi_sum fadd frecip fzero Q
                         = Inr (t, foldl (\<lambda>s (q, ph). fadd s (frecip (q * ph))) fzero
                                     (harmonic_terms Q)))
               \<and> harmonic_sum_fraction Q
                   = Inr (foldl (\<lambda>S (q, ph). S + Fract 1 (q * ph)) 0 (harmonic_terms Q))
               \<and> (1 \<le> prec \<and> prec \<le> MAX_PREC \<longrightarrow>
                    fst (harmonic_sum_decimal Q prec c)
                    = sum_terms (decimal_term prec) (harmonic_terms Q) 0)"
proof -
  have Q: "0 \<le> Q" using assms by simp
  have le: "nat n \<le> nat Q" using assms by simp
  let ?tab = "sieve_loop Q [0..Q]"
  have sv: "sieve_phi Q = Inr ?tab" using Q by (simp add: sieve_phi_def)
  have "phi (int (nat n)) = Some (int (totient_ref (nat n)))" by (rule phi_totient)
  hence a: "phi n = Some (?tab ! nat n)"
    using assms(1) sieve_loop_totient(2)[OF Q le] by simp
  have b: "0 < ?tab ! nat n" if "1 \<le> n"
  proof -
    have "1 \<le> nat n" using that by simp
    hence "1 \<le> totient_ref (nat n)" by (rule totient_ref_pos)
    thus ?thesis using sieve_loop_totient(2)[OF Q le] by simp
  qed
  note tt = sieve_table_terms[OF Q]
  have c: "map (\<lambda>q. (q, ?tab ! nat q)) [2..Q] = harmonic_terms Q"
    unfolding harmonic_terms_def using tt by (intro map_cong) auto
  have two: "\<forall>q\<in>set [2..Q]. 2 \<le> q" by simp
  have d: "harmonic_sum_phi fadd frecip fzero Q
           = Some (Inr (foldl (\<lambda>s (q, ph). fadd s (frecip (q * ph))) fzero (harmonic_terms Q)))"
    unfolding harmonic_sum_phi_def harmonic_terms_def
    by (rule harmonic_sum_phi_loop_terms[OF two])
  have e: "\<exists>t. sieve_phi_sum fadd frecip fzero Q
              = Inr (t, foldl (\<lambda>s (q, ph). fadd s (frecip (q * ph))) fzero (harmonic_terms Q))"
  proof (cases "Q < 1")
    case True
    hence "[2..Q] = []" by simp
    thus ?thesis using True by (simp add: sieve_phi_sum_def harmonic_terms_def)
  next
    case False
    thus ?thesis
      by (simp add: sieve_phi_sum_def Let_def harmonic_terms_def sieve_sum_loop_terms[OF tt])
  qed
  have f: "harmonic_sum_fraction Q
           = Inr (foldl (\<lambda>S (q, ph). S + Fract 1 (q * ph)) 0 (harmonic_terms Q))"
    using Q by (simp add: harmonic_sum_fraction_def sv harmonic_terms_def fraction_sum_loop_terms[OF tt])
  have g: "fst (harmonic_sum_decimal Q prec c) = sum_terms (decimal_term prec) (harmonic_terms Q) 0"
    if "1 \<le> prec \<and> prec \<le> MAX_PREC"
  proof -
    have "\<forall>q\<in>set [2..Q]. ?tab ! nat q = int (totient_ref (nat q))" using tt by blast
    from decimal_sum_loop_terms[OF this, of "c\<lparr>ctx_prec := prec\<rparr>" 0]
    show ?thesis using Q that by (simp add: harmonic_sum_decimal_def sv Let_def harmonic_terms_def)
  qed
  from sv a b c d e f g show ?thesis by blast
qed

text \<open>The theorem at \<open>n = Q = 12\<close>.\<close>

theorem phi_agrees_with_sieve_witness:
  "(0::int) \<le> 12 \<and> (12::int) \<le> 12
   \<and> (\<exists>tab. sieve_phi 12 = Inr tab \<and> phi 12 = Some (tab ! 12) \<and> 0 < tab ! 12)"
proof -
  have h: "(0::int) \<le> 12" "(12::int) \<le> 12" by simp_all
  from phi_agrees_with_sieve[OF h, of "(+)" "\<lambda>d. Fract 1 d" "0::rat" 50 "\<lparr>ctx_prec = 28\<rparr>"]
  obtain tab where "sieve_phi 12 = Inr tab" "phi 12 = Some (tab ! nat 12)"
    "1 \<le> (12::int) \<longrightarrow> 0 < tab ! nat 12" by blast
  thus ?thesis by auto
qed

section \<open>Monotonicity of the harmonic sum\<close>

text \<open>One more index appends one term, and in exact arithmetic the term is positive.\<close>

lemma harmonic_sum_fraction_terms:
  assumes "0 \<le> Q"
  shows "harmonic_sum_fraction Q
         = Inr (foldl (\<lambda>S (q, ph). S + Fract 1 (q * ph)) 0 (harmonic_terms Q))"
proof -
  have "sieve_phi Q = Inr (sieve_loop Q [0..Q])" using assms by (simp add: sieve_phi_def)
  thus ?thesis
    using assms fraction_sum_loop_terms[OF sieve_table_terms[OF assms], of 0]
    by (simp add: harmonic_sum_fraction_def harmonic_terms_def)
qed

lemma harmonic_terms_Suc:
  assumes "1 \<le> Q"
  shows "harmonic_terms (Q + 1) = harmonic_terms Q @ [(Q + 1, int (totient_ref (nat (Q + 1))))]"
proof -
  have "[2..Q + 1] = [2..Q] @ [Q + 1]" using assms by (subst upto_rec2) simp_all
  thus ?thesis by (simp add: harmonic_terms_def)
qed

lemma harmonic_sum_fraction_step:
  assumes "1 \<le> Q"
  shows "\<exists>b c. harmonic_sum_fraction Q = Inr b \<and> harmonic_sum_fraction (Q + 1) = Inr c
               \<and> c = b + Fract 1 ((Q + 1) * int (totient_ref (nat (Q + 1)))) \<and> b < c"
proof -
  let ?f = "\<lambda>S (q, ph). S + Fract 1 (q * ph)"
  let ?b = "foldl ?f (0::rat) (harmonic_terms Q)"
  let ?d = "(Q + 1) * int (totient_ref (nat (Q + 1)))"
  have Q0: "0 \<le> Q" "0 \<le> Q + 1" using assms by simp_all
  have b: "harmonic_sum_fraction Q = Inr ?b" by (rule harmonic_sum_fraction_terms[OF Q0(1)])
  have c: "harmonic_sum_fraction (Q + 1) = Inr (?b + Fract 1 ?d)"
    unfolding harmonic_sum_fraction_terms[OF Q0(2)] harmonic_terms_Suc[OF assms] by simp
  have "1 \<le> nat (Q + 1)" using assms by simp
  hence "1 \<le> totient_ref (nat (Q + 1))" by (rule totient_ref_pos)
  hence "0 < ?d" using assms by simp
  hence "0 < Fract 1 ?d" by (simp add: zero_less_Fract_iff)
  hence "?b < ?b + Fract 1 ?d" by simp
  thus ?thesis using b c by blast
qed

text \<open>
  Claim C3, as the code has it. In the exact fraction mode the harmonic sum is strictly
  increasing from \<open>Q = 1\<close> on: \<open>harmonic_sum_fraction\<close> returns at \<open>Q\<close> and at
  \<open>Q + 1\<close>, and \<open>S(Q) < S(Q + 1)\<close>; so for \<open>Q \<ge> 2\<close> also \<open>S(Q - 1) < S(Q)\<close>. The decimal
  mode is left out: there the inequality depends on the precision.
\<close>

theorem harmonic_sum_fraction_strictly_increasing:
  assumes "1 \<le> Q"
  shows "\<exists>b c. harmonic_sum_fraction Q = Inr b \<and> harmonic_sum_fraction (Q + 1) = Inr c \<and> b < c
               \<and> (2 \<le> Q \<longrightarrow> (\<exists>a. harmonic_sum_fraction (Q - 1) = Inr a \<and> a < b))"
proof -
  from harmonic_sum_fraction_step[OF assms] obtain b c where
    bc: "harmonic_sum_fraction Q = Inr b" "harmonic_sum_fraction (Q + 1) = Inr c" "b < c"
    by blast
  have "\<exists>a. harmonic_sum_fraction (Q - 1) = Inr a \<and> a < b" if "2 \<le> Q"
  proof -
    have "1 \<le> Q - 1" using that by simp
    from harmonic_sum_fraction_step[OF this] bc(1) show ?thesis by auto
  qed
  thus ?thesis using bc by blast
qed

text \<open>The theorem at \<open>Q = 5\<close>: \<open>S(4) < S(5) < S(6)\<close>.\<close>

theorem harmonic_sum_fraction_strictly_increasing_witness:
  "(1::int) \<le> 5 \<and> (2::int) \<le> 5
   \<and> (\<exists>a b c. harmonic_sum_fraction 4 = Inr a \<and> harmonic_sum_fraction 5 = Inr b
              \<and> harmonic_sum_fraction 6 = Inr c \<and> a < b \<and> b < c)"
proof -
  have h: "(1::int) \<le> 5" by simp
  from harmonic_sum_fraction_strictly_increasing[OF h] show ?thesis by auto
qed

text \<open>
  In decimal mode strictness fails at precision 1 and \<open>Q = 5\<close>. The sum runs
  \<open>0.5\<close>, \<open>0.5 + 0.2 = 0.7\<close>, \<open>0.7 + 0.1 = 0.8\<close> (the term \<open>1/8 = 0.125\<close> rounds to
  \<open>0.1\<close>), and then \<open>0.8 + 0.05 = 0.85\<close> rounds half-even back to \<open>0.8\<close>:
  \<open>S(4) = S(5)\<close>.
\<close>

theorem decimal_sum_not_strict_counterexample:
  "fst (harmonic_sum_decimal (5 - 1) 1 \<lparr>ctx_prec = 28\<rparr>) = Inr (4 / 5)
   \<and> fst (harmonic_sum_decimal 5 1 \<lparr>ctx_prec = 28\<rparr>) = Inr (4 / 5)"
  by code_simp

section \<open>Decimal rounding keeps a non-zero value non-zero\<close>

text \<open>
  \<open>dec_adjusted\<close> never overshoots: \<open>10 ^ dec_adjusted x \<le> x\<close>. So the scaled value
  that \<open>dec_round\<close> rounds to an integer is at least 1, and the decimal loop never
  divides by zero.
\<close>

lemma ndigits_bounds: "0 < n \<Longrightarrow> 10 ^ (ndigits n - 1) \<le> n \<and> n < 10 ^ ndigits n"
proof (induction n rule: ndigits.induct)
  case (1 n)
  show ?case
  proof (cases "n < 10")
    case True
    thus ?thesis using "1.prems" by (subst (1 2) ndigits.simps) simp
  next
    case False
    hence "0 < n div 10" by simp
    from "1.IH"[OF False this]
    have IH: "10 ^ (ndigits (n div 10) - 1) \<le> n div 10" "n div 10 < 10 ^ ndigits (n div 10)"
      by auto
    have pos: "0 < ndigits (n div 10)" by (subst ndigits.simps) simp
    have nd: "ndigits n = Suc (ndigits (n div 10))" using False by (subst ndigits.simps) simp
    have "10 ^ (ndigits n - 1) = 10 * 10 ^ (ndigits (n div 10) - 1)"
      using pos by (simp add: nd power_eq_if)
    also have "\<dots> \<le> 10 * (n div 10)" using IH(1) by simp
    also have "\<dots> \<le> n" by simp
    finally have a: "10 ^ (ndigits n - 1) \<le> n" .
    have "n < 10 * (n div 10 + 1)" by presburger
    also have "\<dots> \<le> 10 * 10 ^ ndigits (n div 10)" using IH(2) by simp
    finally have "n < 10 ^ ndigits n" by (simp add: nd)
    thus ?thesis using a by simp
  qed
qed

lemma dec_adjusted_lower:
  assumes "0 < x"
  shows "10 powi dec_adjusted x \<le> x"
proof -
  obtain a b where ab: "quotient_of x = (a, b)" by (cases "quotient_of x")
  hence b: "0 < b" and x: "x = of_int a / of_int b"
    using quotient_of_denom_pos quotient_of_div by auto
  have a: "0 < a" using assms b x by (simp add: zero_less_divide_iff)
  define da where "da = ndigits (nat a)"
  define db where "db = ndigits (nat b)"
  define d where "d = int da - int db"
  have adj: "dec_adjusted x = (if 10 powi d \<le> x then d else d - 1)"
    by (simp add: dec_adjusted_def ab d_def da_def db_def)
  show ?thesis
  proof (cases "10 powi d \<le> x")
    case True
    thus ?thesis by (simp add: adj)
  next
    case False
    have la: "10 ^ (da - 1) \<le> nat a" and ub: "nat b < 10 ^ db"
      using ndigits_bounds[of "nat a"] ndigits_bounds[of "nat b"] a b by (auto simp: da_def db_def)
    have dapos: "0 < da" unfolding da_def by (subst ndigits.simps) simp
    have ra: "(10::rat) ^ (da - 1) \<le> of_int a"
    proof -
      have "of_nat (10 ^ (da - 1)) \<le> (of_nat (nat a) :: rat)" using la by (simp only: of_nat_le_iff)
      thus ?thesis using a by simp
    qed
    have rb: "of_int b \<le> (10::rat) ^ db"
    proof -
      have "(of_nat (nat b) :: rat) \<le> of_nat (10 ^ db)" using ub by (simp only: of_nat_le_iff less_imp_le)
      thus ?thesis using b by simp
    qed
    have "(10::rat) powi (d - 1) = 10 ^ (da - 1) / 10 ^ db"
    proof -
      have "d - 1 = int (da - 1) - int db" using dapos by (simp add: d_def)
      thus ?thesis by (simp add: power_int_diff)
    qed
    also have "\<dots> \<le> of_int a / 10 ^ db" using ra by (simp add: divide_right_mono)
    also have "\<dots> \<le> of_int a / of_int b"
      using rb a b by (intro divide_left_mono) (auto intro: mult_pos_pos)
    also have "\<dots> = x" by (simp only: x)
    finally have "10 powi (d - 1) \<le> x" .
    thus ?thesis using False by (simp only: adj if_False)
  qed
qed

lemma round_half_even_ge: "\<lfloor>x\<rfloor> \<le> round_half_even x"
  by (simp add: round_half_even_def Let_def)

lemma dec_round_nonzero:
  assumes "1 \<le> prec" "x \<noteq> 0"
  shows "dec_round prec x \<noteq> 0"
proof -
  define e where "e = dec_adjusted \<bar>x\<bar> - prec + 1"
  define y where "y = \<bar>x\<bar> / 10 powi e"
  have pos: "0 < \<bar>x\<bar>" using assms by simp
  have "(10::rat) powi e \<le> 10 powi dec_adjusted \<bar>x\<bar>"
    using assms(1) by (intro power_int_increasing) (auto simp: e_def)
  also have "\<dots> \<le> \<bar>x\<bar>" by (rule dec_adjusted_lower[OF pos])
  finally have "1 \<le> y" by (simp add: y_def le_divide_eq)
  hence "1 \<le> \<lfloor>y\<rfloor>" by simp
  hence "1 \<le> round_half_even y" using round_half_even_ge[of y] by linarith
  hence "of_int (round_half_even y) \<noteq> (0::rat)" by simp
  moreover have "sgn x \<noteq> 0" using assms(2) by (simp add: sgn_if)
  moreover have "(10::rat) powi e \<noteq> 0" by simp
  ultimately show ?thesis using assms by (simp add: dec_round_def Let_def e_def y_def)
qed

section \<open>The monotonicity check and the decimal context\<close>

lemma decimal_sum_terms_returns:
  assumes "1 \<le> prec" "\<forall>(q, ph)\<in>set ts. q * ph \<noteq> 0"
  shows "\<exists>S. sum_terms (decimal_term prec) ts S0 = Inr S"
  using assms(2)
proof (induction ts arbitrary: S0)
  case Nil
  show ?case by simp
next
  case (Cons t ts)
  obtain q ph where t: "t = (q, ph)" by (cases t)
  have "q * ph \<noteq> 0" using Cons.prems t by simp
  hence "(of_int q * of_int ph :: rat) \<noteq> 0" by simp
  hence nz: "dec_round prec (of_int q * of_int ph) \<noteq> 0" by (rule dec_round_nonzero[OF assms(1)])
  have "\<forall>(q, ph)\<in>set ts. q * ph \<noteq> 0" using Cons.prems by simp
  from Cons.IH[OF this] show ?case using nz by (simp add: t decimal_term_def Let_def)
qed

lemma harmonic_terms_products: "\<forall>(q, ph)\<in>set (harmonic_terms Q). q * ph \<noteq> 0"
proof -
  have "\<forall>q\<in>set [2..Q]. 2 \<le> q" by simp
  from harmonic_terms_nonzero[OF this] show ?thesis by (auto simp: harmonic_terms_def)
qed

lemma harmonic_sum_decimal_terms:
  assumes "0 \<le> Q" "1 \<le> prec" "prec \<le> MAX_PREC"
  shows "harmonic_sum_decimal Q prec c
         = (sum_terms (decimal_term prec) (harmonic_terms Q) 0, c\<lparr>ctx_prec := prec\<rparr>)"
proof -
  have sv: "sieve_phi Q = Inr (sieve_loop Q [0..Q])" using assms by (simp add: sieve_phi_def)
  have "\<forall>q\<in>set [2..Q]. sieve_loop Q [0..Q] ! nat q = int (totient_ref (nat q))"
    using sieve_table_terms[OF assms(1)] by blast
  from decimal_sum_loop_terms[OF this, of "c\<lparr>ctx_prec := prec\<rparr>" 0]
  show ?thesis using assms by (simp add: harmonic_sum_decimal_def sv Let_def harmonic_terms_def)
qed

lemma harmonic_sum_decimal_returns:
  assumes "0 \<le> Q" "1 \<le> prec" "prec \<le> MAX_PREC"
  shows "\<exists>S. harmonic_sum_decimal Q prec c = (Inr S, c\<lparr>ctx_prec := prec\<rparr>)"
  using decimal_sum_terms_returns[OF assms(2) harmonic_terms_products, of Q 0]
  by (auto simp: harmonic_sum_decimal_terms[OF assms])

lemma harmonic_terms_empty: "Q \<le> 1 \<Longrightarrow> harmonic_terms Q = []"
  by (simp add: harmonic_terms_def)

lemma fifth_root_small:
  assumes "1 \<le> N" "N \<le> 31"
  shows "int_nth_root_floor N 5 = Some (Inr 1)"
proof -
  have "0 \<le> N" "(1::int) \<le> 5" using assms by simp_all
  from int_nth_root_floor_returns[OF this] obtain r where
    r: "int_nth_root_floor N 5 = Some (Inr r)" "0 \<le> r" "r ^ nat 5 \<le> N" "N < (r + 1) ^ nat 5"
    by blast
  have "r \<noteq> 0" using r(4) assms by auto
  moreover have "r < 2"
  proof (rule ccontr)
    assume "\<not> r < 2"
    hence "(2::int) ^ nat 5 \<le> r ^ nat 5" by (intro power_mono) auto
    thus False using r(3) assms by simp
  qed
  ultimately have "r = 1" using r(2) by simp
  thus ?thesis using r(1) by simp
qed

lemma fraction_checked_one: "fraction_checked 1 = Inl AssertionError"
proof -
  have a: "harmonic_sum_fraction 1 = Inr 0"
    by (simp add: harmonic_sum_fraction_terms harmonic_terms_empty)
  obtain S where "harmonic_sum_fraction (1 + 1) = Inr S"
    using harmonic_sum_fraction_terms[of "1 + 1"] by simp
  thus ?thesis using a by (simp add: fraction_checked_def err_bind_def)
qed

lemma decimal_checked_one:
  assumes "1 \<le> prec" "prec \<le> MAX_PREC"
  shows "decimal_checked 1 prec c = Inl AssertionError"
proof -
  let ?ctx = "c\<lparr>ctx_prec := prec\<rparr>"
  have a: "harmonic_sum_decimal 1 prec ?ctx = (Inr 0, ?ctx)"
    using assms by (simp add: harmonic_sum_decimal_terms harmonic_terms_empty)
  obtain S where b: "harmonic_sum_decimal (1 + 1) prec ?ctx = (Inr S, ?ctx)"
    using harmonic_sum_decimal_returns[OF _ assms, of "1 + 1" ?ctx] by auto
  show ?thesis using assms a b by (simp add: decimal_checked_def err_bind_def Let_def)
qed

text \<open>
  Claim C8. For every integer \<open>N\<close> with \<open>1 \<le> N \<le> 31\<close> the fifth root is \<open>Q = 1\<close>;
  \<open>S(Q - 1)\<close> and \<open>S(Q)\<close> are both 0, in the fraction mode and in the decimal mode; and
  \<open>compute_tail_margins\<close> raises AssertionError, with \<^verbatim>\<open>method="fraction"\<close> and with
  any other method (the decimal branch) at a precision the decimal context accepts,
  such as the default 50. The caller's decimal context is unchanged.
\<close>

theorem small_N_fails_monotonicity:
  assumes "1 \<le> N" "N \<le> 31" "method = ''fraction'' \<or> (1 \<le> prec \<and> prec \<le> MAX_PREC)"
  shows "int_nth_root_floor N 5 = Some (Inr 1)
         \<and> harmonic_sum_fraction (1 - 1) = Inr 0 \<and> harmonic_sum_fraction 1 = Inr 0
         \<and> (1 \<le> prec \<and> prec \<le> MAX_PREC \<longrightarrow>
              fst (harmonic_sum_decimal (1 - 1) prec c) = Inr 0
              \<and> fst (harmonic_sum_decimal 1 prec c) = Inr 0)
         \<and> compute_tail_margins N K S_floor C_W method prec c = (Some (Inl AssertionError), c)"
proof -
  note root = fifth_root_small[OF assms(1,2)]
  have f: "harmonic_sum_fraction (1 - 1) = Inr 0" "harmonic_sum_fraction 1 = Inr 0"
    by (simp_all add: harmonic_sum_fraction_terms harmonic_terms_empty)
  have d: "fst (harmonic_sum_decimal (1 - 1) prec c) = Inr 0
           \<and> fst (harmonic_sum_decimal 1 prec c) = Inr 0" if "1 \<le> prec \<and> prec \<le> MAX_PREC"
    using that by (simp add: harmonic_sum_decimal_terms harmonic_terms_empty)
  have chk: "(if method = ''fraction'' then fraction_checked 1 else decimal_checked 1 prec c)
             = Inl AssertionError"
    using assms(3) fraction_checked_one decimal_checked_one[of prec c] by auto
  have "compute_tail_margins N K S_floor C_W method prec c = (Some (Inl AssertionError), c)"
    using assms(1) unfolding compute_tail_margins_def root
    by (simp add: chk err_bind_def)
  thus ?thesis using root f d by blast
qed

text \<open>The theorem at \<open>N = 31\<close>, for both methods, with the constants of the tests.\<close>

theorem small_N_fails_monotonicity_witness:
  "(1::int) \<le> 31 \<and> (31::int) \<le> 31
   \<and> compute_tail_margins 31 10 (12 / 10) 2 ''fraction'' 50 \<lparr>ctx_prec = 28\<rparr>
       = (Some (Inl AssertionError), \<lparr>ctx_prec = 28\<rparr>)
   \<and> compute_tail_margins 31 10 (12 / 10) 2 ''decimal'' 50 \<lparr>ctx_prec = 28\<rparr>
       = (Some (Inl AssertionError), \<lparr>ctx_prec = 28\<rparr>)"
proof -
  have h: "(1::int) \<le> 31" "(31::int) \<le> 31" by simp_all
  have m1: "''fraction'' = ''fraction'' \<or> ((1::int) \<le> 50 \<and> 50 \<le> MAX_PREC)" by simp
  have m2: "''decimal'' = ''fraction'' \<or> ((1::int) \<le> 50 \<and> 50 \<le> MAX_PREC)"
    by (simp add: MAX_PREC_def)
  show ?thesis
    using small_N_fails_monotonicity[OF h m1] small_N_fails_monotonicity[OF h m2] h by blast
qed

text \<open>
  Claim C10. A direct call \<open>harmonic_sum_decimal Q prec\<close> with \<open>Q \<ge> 0\<close> and a precision
  the context accepts returns a sum and leaves the current decimal context with
  precision \<open>prec\<close>, whatever it was before; and whenever the call returns a sum, the
  precision afterwards is \<open>prec\<close>. \<open>compute_tail_margins\<close>, which makes its calls
  inside a local context, leaves the caller's context as it was, whatever it returns or
  raises.
\<close>

theorem decimal_precision_frame:
  "(0 \<le> Q \<and> 1 \<le> prec \<and> prec \<le> MAX_PREC \<longrightarrow>
      (\<exists>S. harmonic_sum_decimal Q prec c = (Inr S, c\<lparr>ctx_prec := prec\<rparr>)))
   \<and> (\<forall>S c'. harmonic_sum_decimal Q prec c = (Inr S, c') \<longrightarrow> ctx_prec c' = prec)
   \<and> snd (compute_tail_margins N K S_floor C_W method prec2 c) = c"
proof -
  have a: "\<exists>S. harmonic_sum_decimal Q prec c = (Inr S, c\<lparr>ctx_prec := prec\<rparr>)"
    if "0 \<le> Q \<and> 1 \<le> prec \<and> prec \<le> MAX_PREC"
    using that harmonic_sum_decimal_returns by blast
  have b: "ctx_prec c' = prec" if "harmonic_sum_decimal Q prec c = (Inr S, c')" for S c'
    using that by (auto simp: harmonic_sum_decimal_def Let_def split: if_splits sum.splits)
  have c: "snd (compute_tail_margins N K S_floor C_W method prec2 c) = c"
    by (simp add: compute_tail_margins_def split: option.splits sum.splits)
  from a b c show ?thesis by blast
qed

text \<open>
  The theorem at \<open>Q = 5\<close>, \<open>prec = 50\<close> and a context of precision 28: the call leaves
  precision 50, \<open>compute_tail_margins\<close> leaves 28.
\<close>

theorem decimal_precision_frame_witness:
  "(\<exists>S. harmonic_sum_decimal 5 50 \<lparr>ctx_prec = 28\<rparr> = (Inr S, \<lparr>ctx_prec = 50\<rparr>))
   \<and> snd (compute_tail_margins 4000000000000000000 10 (12 / 10) 2 ''decimal'' 50 \<lparr>ctx_prec = 28\<rparr>)
       = \<lparr>ctx_prec = 28\<rparr>"
  using decimal_precision_frame[of 5 50 "\<lparr>ctx_prec = 28\<rparr>" 4000000000000000000 10 "12 / 10" 2 "''decimal''" 50]
  by (simp add: MAX_PREC_def)

section \<open>The per-q envelope with an empty table\<close>




section \<open>The exit status of the entry point\<close>









end
